theory Spec2Isabelle
  imports Complex_Main "HOL-Library.Sublist" "HOL-Library.Word"
begin

section \<open>Camera device session coordinator of server.py\<close>

text \<open>
  The development embeds the device-facing core of \<^verbatim>\<open>src/server.py\<close>: the capture
  primitive with its retry loop, the manual capture handler with its cooldown, the
  intervalometer worker, the import worker, the card-sync transfer of the preview mirror
  and the MJPEG demuxer of the live stream.

  Every call of the external device CLI is an oracle of the environment: a value of
  \<open>outcome\<close> says whether \<^verbatim>\<open>subprocess.check_output\<close> returned, raised
  \<^verbatim>\<open>CalledProcessError\<close> (with the captured output) or raised anything else.
  What a thread does to the device and to the lock is recorded in a trace of events kept
  in the state, so that invocations and sleeps can be counted.
\<close>

subsection \<open>Outcomes of external calls, events\<close>

datatype 'a outcome =
    Returned 'a
  | ProcError string
  | Raised string

datatype event =
    Acquire
  | Release
  | Spawn
  | Reap
  | Sleep real
  | WaitProc real

text \<open>
  \<open>Acquire\<close> and \<open>Release\<close> are entry to and exit from \<^verbatim>\<open>with cam_lock:\<close>;
  \<open>Spawn\<close> and \<open>Reap\<close> are the start and the end of one gphoto2 subprocess
  (\<^verbatim>\<open>check_output\<close> is both, one after the other; \<^verbatim>\<open>Popen\<close> is the start only);
  \<open>Sleep d\<close> is \<^verbatim>\<open>time.sleep(d)\<close>; \<open>WaitProc d\<close> is \<^verbatim>\<open>proc.wait(timeout=d)\<close>.
\<close>

subsection \<open>Python string helpers\<close>

definition lower_char :: "char \<Rightarrow> char" where
  "lower_char c =
     (let n = (of_char c :: nat) in if 65 \<le> n \<and> n \<le> 90 then char_of (n + 32) else c)"

definition lower :: "string \<Rightarrow> string" where
  "lower s = map lower_char s"

text \<open>
  \<open>contains kw s\<close> is Python's \<^verbatim>\<open>kw in s\<close> on strings. \<open>lower\<close> folds the ASCII
  letters; the characters beyond ASCII never fold to an ASCII letter, and every keyword
  searched for below is ASCII, so the classification does not depend on them.
\<close>

fun contains :: "string \<Rightarrow> string \<Rightarrow> bool" where
  "contains kw [] = (kw = [])"
| "contains kw (c # cs) = (prefix kw (c # cs) \<or> contains kw cs)"

definition truthy :: "string option \<Rightarrow> bool" where
  "truthy v = (case v of None \<Rightarrow> False | Some t \<Rightarrow> t \<noteq> [])"

definition or_else :: "string option \<Rightarrow> string \<Rightarrow> string" where
  "or_else v d = (case v of None \<Rightarrow> d | Some t \<Rightarrow> if t = [] then d else t)"

subsection \<open>Shared state\<close>

record interval_state =
  iv_running :: bool
  iv_interval :: real
  iv_remaining :: int
  iv_total :: int
  iv_last_error :: "string option"

record import_state =
  im_running :: bool
  im_mode :: "string option"
  im_target :: "string option"
  im_total :: nat
  im_done :: nat
  im_imported :: nat
  im_skipped :: nat
  im_errors :: nat
  im_current :: "string option"
  im_started_at :: "real option"
  im_finished_at :: "real option"
  im_last_error :: "string option"
  im_auraface_sent :: nat
  im_auraface_failed :: nat

datatype proc = Alive | Exited

record server_state =
  LAST_CAPTURE_TS :: real
  interval_st :: interval_state
  import_st :: import_state
  import_conf :: int
  preview_last_index :: int
  preview_last_ts :: int
  liveview_proc :: "proc option"
  liveview_running :: bool
  clock :: real
  trace :: "event list"

text \<open>
  \<open>import_conf\<close> is the \<^verbatim>\<open>last_index\<close> of import.json and \<open>preview_last_index\<close>,
  \<open>preview_last_ts\<close> are the fields of preview.json: the persisted high-water marks.
  \<open>clock\<close> is what \<^verbatim>\<open>time.time()\<close> reads.
\<close>

definition emit :: "event list \<Rightarrow> server_state \<Rightarrow> server_state" where
  "emit es s = s\<lparr>trace := trace s @ es\<rparr>"

definition time_sleep :: "real \<Rightarrow> real \<Rightarrow> server_state \<Rightarrow> server_state" where
  "time_sleep over d s = emit [Sleep d] (s\<lparr>clock := clock s + d + over\<rparr>)"

text \<open>
  \<open>time_sleep over d\<close> blocks for \<open>d\<close> seconds and whatever the scheduler adds
  (\<open>over\<close>, never negative in the theorems below).
\<close>

definition spawns :: "event list \<Rightarrow> nat" where
  "spawns es = length (filter (\<lambda>e. e = Spawn) es)"

fun sleeps :: "event list \<Rightarrow> real list" where
  "sleeps [] = []"
| "sleeps (Sleep d # es) = d # sleeps es"
| "sleeps (e # es) = sleeps es"

subsection \<open>The capture primitive: \<^verbatim>\<open>_capture_one\<close>\<close>

definition MIN_CAPTURE_GAP :: real where
  "MIN_CAPTURE_GAP = 1.2"

definition capture_attempts :: nat where
  "capture_attempts = 2"

definition capture_delay :: real where
  "capture_delay = 0.6"

definition capture_transient :: "string \<Rightarrow> bool" where
  "capture_transient output =
     (let err_txt = lower output in
      list_ex (\<lambda>kw. contains kw err_txt)
        [''could not claim the usb device'',
         ''device or resource busy'',
         ''device busy'',
         ''ptp i/o error'',
         ''i/o error'',
         ''busy''])"

text \<open>
  The loop \<^verbatim>\<open>for i in range(attempts)\<close> of \<^verbatim>\<open>_capture_one\<close>. \<open>gp i\<close> is what the
  \<open>i\<close>-th call of \<^verbatim>\<open>_do_capture\<close> does. The result is \<open>Returned\<close> when the loop is left
  by \<^verbatim>\<open>break\<close>, and the exception that leaves it otherwise.
\<close>

function capture_retry ::
  "(nat \<Rightarrow> string outcome) \<Rightarrow> real \<Rightarrow> nat \<Rightarrow> server_state \<Rightarrow> string outcome \<times> server_state"
where
  "capture_retry gp over i s =
     (if i < capture_attempts then
        (let s1 = emit [Spawn, Reap] s in
         case gp i of
           Returned out \<Rightarrow> (Returned out, s1)
         | ProcError output \<Rightarrow>
             if capture_transient output \<and> i < capture_attempts - 1
             then capture_retry gp over (i + 1) (time_sleep over capture_delay s1)
             else (ProcError output, s1)
         | Raised msg \<Rightarrow> (Raised msg, s1))
      else (Returned [], s))"
  by pat_completeness auto
termination
  by (relation "measure (\<lambda>(gp, over, i, s). capture_attempts - i)") auto

declare capture_retry.simps [simp del]

record capture_env =
  do_capture :: "nat \<Rightarrow> string outcome"
  saved :: "string list outcome"
  tagging :: "(string \<times> string option) outcome"
  set_config :: "string \<Rightarrow> string outcome"
  oversleep :: real

text \<open>
  \<open>do_capture i\<close> is the \<open>i\<close>-th run of gphoto2 in one call of \<^verbatim>\<open>_capture_one\<close>;
  \<open>saved\<close> is the sorted \<^verbatim>\<open>glob\<close> of the files just written (base names, newest
  first); \<open>tagging\<close> is what the GPS and AuraFace collaborators hand back
  (\<^verbatim>\<open>gps_details\<close>, \<^verbatim>\<open>auraface_info\<close>); \<open>set_config arg\<close> is
  \<^verbatim>\<open>gphoto2 --set-config arg\<close>.
\<close>

record capture_result =
  ok :: bool
  fname :: "string option"
  gps_details :: string
  auraface_info :: "string option"

definition capture_failed :: "string \<Rightarrow> server_state \<Rightarrow> capture_result \<times> server_state" where
  "capture_failed txt s =
     (\<lparr>ok = False, fname = None, gps_details = [], auraface_info = None\<rparr>,
      s\<lparr>interval_st := (interval_st s)\<lparr>iv_last_error := Some txt\<rparr>\<rparr>)"

definition capture_one :: "capture_env \<Rightarrow> server_state \<Rightarrow> capture_result \<times> server_state" where
  "capture_one env s =
     (case capture_retry (do_capture env) (oversleep env) 0 s of
        (ProcError output, s1) \<Rightarrow> capture_failed output s1
      | (Raised msg, s1) \<Rightarrow> capture_failed msg s1
      | (Returned out, s1) \<Rightarrow>
          (case saved env of
             ProcError output \<Rightarrow> capture_failed output s1
           | Raised msg \<Rightarrow> capture_failed msg s1
           | Returned files \<Rightarrow>
               (let name = (case files of [] \<Rightarrow> [] | f # _ \<Rightarrow> f) in
                if name \<noteq> [] then
                  (case tagging env of
                     ProcError output \<Rightarrow> capture_failed output s1
                   | Raised msg \<Rightarrow> capture_failed msg s1
                   | Returned (gps, aura) \<Rightarrow>
                       (\<lparr>ok = True, fname = Some name, gps_details = gps,
                         auraface_info = aura\<rparr>, s1))
                else
                  (\<lparr>ok = True, fname = Some name, gps_details = [],
                    auraface_info = None\<rparr>, s1))))"

subsection \<open>The live-view hold process, as far as a capture touches it\<close>

definition LIVEVIEW_KEYS :: "string list" where
  "LIVEVIEW_KEYS = [''/main/actions/viewfinder'', ''/main/actions/eosviewfinder'']"

fun set_liveview_keys ::
  "(string \<Rightarrow> string outcome) \<Rightarrow> string \<Rightarrow> string list \<Rightarrow> server_state \<Rightarrow> bool outcome \<times> server_state"
where
  "set_liveview_keys gp val [] s = (Returned False, s)"
| "set_liveview_keys gp val (k # ks) s =
     (let s1 = emit [Spawn, Reap] s in
      case gp (k @ ''='' @ val) of
        Returned out \<Rightarrow> (Returned True, s1)
      | ProcError output \<Rightarrow> set_liveview_keys gp val ks s1
      | Raised msg \<Rightarrow> (Raised msg, s1))"

definition set_liveview :: "capture_env \<Rightarrow> bool \<Rightarrow> server_state \<Rightarrow> bool outcome \<times> server_state" where
  "set_liveview env on s =
     set_liveview_keys (set_config env) (if on then ''1'' else ''0'') LIVEVIEW_KEYS s"

definition liveview_proc_running :: "server_state \<Rightarrow> bool \<times> server_state" where
  "liveview_proc_running s =
     (case liveview_proc s of
        None \<Rightarrow> (False, s)
      | Some Alive \<Rightarrow> (True, s)
      | Some Exited \<Rightarrow> (False, s\<lparr>liveview_proc := None, liveview_running := False\<rparr>))"

definition liveview_proc_stop :: "capture_env \<Rightarrow> server_state \<Rightarrow> server_state" where
  "liveview_proc_stop env s =
     (case liveview_proc s of
        None \<Rightarrow> s\<lparr>liveview_running := False\<rparr>
      | Some p \<Rightarrow>
          snd (set_liveview env False
                 ((emit [WaitProc 5] s)\<lparr>liveview_proc := None, liveview_running := False\<rparr>)))"

subsection \<open>Manual capture: the handler of \<^verbatim>\<open>/capture\<close>\<close>

datatype response =
    Error string
  | OK string string "string option"

definition cooldown :: "capture_env \<Rightarrow> server_state \<Rightarrow> server_state" where
  "cooldown env s1 =
     (let now = clock s1;
          delta = now - LAST_CAPTURE_TS s1;
          s2 = (if delta < MIN_CAPTURE_GAP
                then time_sleep (oversleep env) (MIN_CAPTURE_GAP - delta) s1 else s1)
      in s2\<lparr>LAST_CAPTURE_TS := clock s2\<rparr>)"

definition stop_hold :: "capture_env \<Rightarrow> server_state \<Rightarrow> server_state" where
  "stop_hold env s3 =
     (let (running, s4) = liveview_proc_running s3
      in if running then liveview_proc_stop env s4 else s4)"

text \<open>
  \<open>cooldown\<close> is lines 1862 to 1866 of the handler and \<open>stop_hold\<close> lines 1869 to 1870;
  both run inside \<^verbatim>\<open>with cam_lock:\<close>, before the capture primitive.
\<close>

definition capture :: "capture_env \<Rightarrow> server_state \<Rightarrow> response \<times> server_state" where
  "capture env s =
     (let s5 = stop_hold env (cooldown env (emit [Acquire] s));
          (r, s6) = capture_one env s5;
          s7 = emit [Release] s6
      in if \<not> ok r \<or> \<not> truthy (fname r)
         then (Error (or_else (iv_last_error (interval_st s7)) ''capture failed''), s7)
         else (OK (the (fname r)) (gps_details r) (auraface_info r), s7))"

subsection \<open>Intervalometer: \<^verbatim>\<open>_interval_worker\<close> and the status handler\<close>

record interval_env =
  tick :: "nat \<Rightarrow> capture_env"
  stop_req :: "nat \<Rightarrow> bool"
  iv_over :: real

text \<open>
  \<open>tick k\<close> is the environment of the \<open>k\<close>-th capture of the job; \<open>stop_req k\<close> says that
  \<^verbatim>\<open>/api/interval/stop\<close> cleared the running flag before the worker's \<open>k\<close>-th look at it.
\<close>

lemma capture_retry_interval_st:
  "interval_st (snd (capture_retry gp over i s)) = interval_st s"
proof (induction gp over i s rule: capture_retry.induct)
  case (1 gp over i s)
  show ?case
  proof (cases "i < capture_attempts")
    case False
    then show ?thesis by (simp add: capture_retry.simps [of gp over i s])
  next
    case True
    show ?thesis
    proof (cases "gp i")
      case (Returned out)
      with True show ?thesis
        by (simp add: capture_retry.simps [of gp over i s] emit_def)
    next
      case (Raised msg)
      with True show ?thesis
        by (simp add: capture_retry.simps [of gp over i s] emit_def)
    next
      case (ProcError err)
      show ?thesis
      proof (cases "capture_transient err \<and> i < capture_attempts - 1")
        case False
        with True ProcError show ?thesis
          by (auto simp: capture_retry.simps [of gp over i s] emit_def)
      next
        case retry: True
        have "interval_st (snd (capture_retry gp over (i + 1)
                (time_sleep over capture_delay (emit [Spawn, Reap] s))))
              = interval_st (time_sleep over capture_delay (emit [Spawn, Reap] s))"
          using "1.IH" [OF True refl ProcError retry] .
        with True ProcError retry show ?thesis
          by (simp add: capture_retry.simps [of gp over i s] emit_def time_sleep_def)
      qed
    qed
  qed
qed

lemma capture_one_remaining:
  "iv_remaining (interval_st (snd (capture_one env s))) = iv_remaining (interval_st s)"
proof -
  obtain r s1 where rs: "capture_retry (do_capture env) (oversleep env) 0 s = (r, s1)"
    by (cases "capture_retry (do_capture env) (oversleep env) 0 s")
  then have "interval_st s1 = interval_st s"
    using capture_retry_interval_st [of "do_capture env" "oversleep env" 0 s] by simp
  with rs show ?thesis
    by (auto simp: capture_one_def capture_failed_def Let_def
             split: outcome.splits list.splits prod.splits)
qed

function interval_loop :: "interval_env \<Rightarrow> real \<Rightarrow> nat \<Rightarrow> server_state \<Rightarrow> server_state" where
  "interval_loop env interval_s k s =
     (let s0 = (if stop_req env k
                then s\<lparr>interval_st := (interval_st s)\<lparr>iv_running := False\<rparr>\<rparr> else s)
      in if \<not> iv_running (interval_st s0) then s0
         else if iv_remaining (interval_st s0) \<le> 0
         then s0\<lparr>interval_st := (interval_st s0)\<lparr>iv_running := False\<rparr>\<rparr>
         else
           (let s2 = snd (capture_one (tick env k) (emit [Acquire] s0));
                r = fst (capture_one (tick env k) (emit [Acquire] s0));
                s3 = emit [Release] s2
            in if \<not> ok r
               then s3\<lparr>interval_st := (interval_st s3)\<lparr>iv_running := False\<rparr>\<rparr>
               else
                 (let s4 = s3\<lparr>interval_st :=
                              (interval_st s3)\<lparr>iv_remaining := iv_remaining (interval_st s3) - 1\<rparr>\<rparr>
                  in if interval_s \<le> 0 then interval_loop env interval_s (k + 1) s4
                     else interval_loop env interval_s (k + 1)
                            (time_sleep (iv_over env) interval_s s4))))"
  by pat_completeness auto
termination
proof (relation "measure (\<lambda>(env, interval_s, k, s). nat (iv_remaining (interval_st s)))")
  show "wf (measure (\<lambda>(env, interval_s, k, s). nat (iv_remaining (interval_st s))))"
    by simp
next
  fix env :: interval_env and interval_s :: real and k :: nat and s s0 s2 s3 s4 :: server_state
    and r :: capture_result
  assume s0: "s0 = (if stop_req env k
                then s\<lparr>interval_st := (interval_st s)\<lparr>iv_running := False\<rparr>\<rparr> else s)"
    and pos: "\<not> iv_remaining (interval_st s0) \<le> 0"
    and s2: "s2 = snd (capture_one (tick env k) (emit [Acquire] s0))"
    and s3: "s3 = emit [Release] s2"
    and s4: "s4 = s3\<lparr>interval_st :=
                   (interval_st s3)\<lparr>iv_remaining := iv_remaining (interval_st s3) - 1\<rparr>\<rparr>"
  have "iv_remaining (interval_st s2) = iv_remaining (interval_st s0)"
    unfolding s2 by (simp add: capture_one_remaining emit_def)
  then have dec: "iv_remaining (interval_st s4) = iv_remaining (interval_st s0) - 1"
    by (simp add: s4 s3 emit_def)
  have same: "iv_remaining (interval_st s0) = iv_remaining (interval_st s)"
    by (simp add: s0)
  show "((env, interval_s, k + 1, s4), env, interval_s, k, s)
        \<in> measure (\<lambda>(env, interval_s, k, s). nat (iv_remaining (interval_st s)))"
    using dec same pos by simp
  show "((env, interval_s, k + 1, time_sleep (iv_over env) interval_s s4), env, interval_s, k, s)
        \<in> measure (\<lambda>(env, interval_s, k, s). nat (iv_remaining (interval_st s)))"
    using dec same pos by (simp add: time_sleep_def emit_def)
qed

declare interval_loop.simps [simp del]

definition interval_worker :: "interval_env \<Rightarrow> real \<Rightarrow> int \<Rightarrow> server_state \<Rightarrow> server_state" where
  "interval_worker env interval_s count s =
     (let s0 = s\<lparr>interval_st :=
                   \<lparr>iv_running = True, iv_interval = interval_s, iv_remaining = count,
                    iv_total = count, iv_last_error = None\<rparr>\<rparr>;
          s1 = interval_loop env interval_s 0 s0
      in s1\<lparr>interval_st := (interval_st s1)\<lparr>iv_running := False\<rparr>\<rparr>)"

definition interval_status :: "server_state \<Rightarrow> interval_state" where
  "interval_status s = interval_st s"

subsection \<open>Import from the camera card: \<^verbatim>\<open>_import_worker\<close>\<close>

record camera_file =
  f_index :: int
  f_name :: string
  f_ts :: "int option"

record import_env =
  list_files :: "camera_file list outcome"
  get_file :: "nat \<Rightarrow> string outcome"
  dest_exists :: "nat \<Rightarrow> bool"
  cancel_set :: "nat \<Rightarrow> bool"
  makedirs :: "string option"
  save_ok :: bool

text \<open>
  \<open>list_files\<close> is \<^verbatim>\<open>gphoto2 --list-files\<close> with its output parsed into records;
  \<open>get_file k\<close> is the \<^verbatim>\<open>--get-file\<close> run for the \<open>k\<close>-th selected file and
  \<open>dest_exists k\<close> is \<^verbatim>\<open>os.path.exists(dest)\<close> after it; \<open>cancel_set k\<close> is
  \<^verbatim>\<open>import_cancel.is_set()\<close> at the check before the \<open>k\<close>-th file; \<open>makedirs\<close> is
  the exception of \<^verbatim>\<open>os.makedirs(target_dir)\<close>, if it raises; \<open>save_ok\<close> says that
  import.json could be written.
\<close>

definition list_camera_files ::
  "camera_file list outcome \<Rightarrow> server_state \<Rightarrow> camera_file list outcome \<times> server_state" where
  "list_camera_files r s =
     (let s1 = emit [Acquire, Spawn, Reap, Release] s in
      case r of
        Returned fs \<Rightarrow> (Returned fs, s1)
      | ProcError output \<Rightarrow> (Returned [], s1)
      | Raised msg \<Rightarrow> (Raised msg, s1))"

definition upd_import :: "(import_state \<Rightarrow> import_state) \<Rightarrow> server_state \<Rightarrow> server_state" where
  "upd_import f s = s\<lparr>import_st := f (import_st s)\<rparr>"

definition save_import_conf :: "import_env \<Rightarrow> int \<Rightarrow> server_state \<Rightarrow> server_state" where
  "save_import_conf env v s = (if save_ok env then s\<lparr>import_conf := v\<rparr> else s)"

datatype loop_exit = Completed | Cancelled | Crashed string

fun import_loop ::
  "import_env \<Rightarrow> nat \<Rightarrow> camera_file list \<Rightarrow> int \<Rightarrow> server_state \<Rightarrow> loop_exit \<times> int \<times> server_state"
where
  "import_loop env k [] max_idx s = (Completed, max_idx, s)"
| "import_loop env k (item # rest) max_idx s =
     (if cancel_set env k then (Cancelled, max_idx, s)
      else if \<not> im_running (import_st s) then (Cancelled, max_idx, s)
      else
        (let s1 = upd_import (\<lambda>st. st\<lparr>im_current := Some (f_name item)\<rparr>) s;
             idx = f_index item;
             s2 = emit [Spawn, Reap] s1
         in case get_file env k of
              Returned out \<Rightarrow>
                (let existed_msg = (contains ''File exists'' out \<or> contains ''already exists'' out);
                     s3 = (if dest_exists env k \<and> \<not> existed_msg
                           then upd_import (\<lambda>st. st\<lparr>im_imported := im_imported st + 1\<rparr>) s2
                           else upd_import (\<lambda>st. st\<lparr>im_skipped := im_skipped st + 1\<rparr>) s2);
                     max_idx' = (if idx > max_idx then idx else max_idx)
                 in import_loop env (k + 1) rest max_idx'
                      (upd_import (\<lambda>st. st\<lparr>im_done := im_done st + 1\<rparr>) s3))
            | ProcError output \<Rightarrow>
                import_loop env (k + 1) rest max_idx
                  (upd_import (\<lambda>st. st\<lparr>im_done := im_done st + 1\<rparr>)
                     (upd_import (\<lambda>st. st\<lparr>im_errors := im_errors st + 1,
                                            im_last_error := Some output\<rparr>) s2))
            | Raised msg \<Rightarrow>
                (Crashed msg, max_idx,
                 upd_import (\<lambda>st. st\<lparr>im_done := im_done st + 1\<rparr>) s2)))"

definition select_files :: "string \<Rightarrow> int \<Rightarrow> camera_file list \<Rightarrow> camera_file list" where
  "select_files mode last_idx files =
     (if mode = ''new'' then filter (\<lambda>f. f_index f > last_idx) files else files)"

definition reset_counters :: "nat \<Rightarrow> server_state \<Rightarrow> server_state" where
  "reset_counters n s =
     upd_import (\<lambda>st. st\<lparr>im_total := n, im_done := 0, im_imported := 0, im_skipped := 0,
                            im_errors := 0, im_current := None, im_last_error := None,
                            im_auraface_sent := 0, im_auraface_failed := 0\<rparr>) s"

definition crashed :: "string \<Rightarrow> server_state \<Rightarrow> server_state" where
  "crashed msg s = upd_import (\<lambda>st. st\<lparr>im_last_error := Some (''worker crashed: '' @ msg)\<rparr>) s"

text \<open>
  \<open>import_body\<close> is the \<^verbatim>\<open>try\<close> block of the worker with its \<^verbatim>\<open>except\<close> handler; it
  returns the flag \<^verbatim>\<open>cancelled\<close> with the state. \<open>finish\<close> is the outer
  \<^verbatim>\<open>finally\<close> block, which also runs after the early returns.
\<close>

definition import_body :: "import_env \<Rightarrow> string \<Rightarrow> bool \<Rightarrow> server_state \<Rightarrow> bool \<times> server_state" where
  "import_body env mode session s =
     (let last_idx = import_conf s in
      case list_camera_files (list_files env) s of
        (ProcError output, s1) \<Rightarrow> (False, crashed output s1)
      | (Raised msg, s1) \<Rightarrow> (False, crashed msg s1)
      | (Returned files, s1) \<Rightarrow>
          if files = [] then
            (False, upd_import (\<lambda>st. st\<lparr>im_running := False, im_total := 0,
                       im_last_error := Some ''No files listed by gphoto2'',
                       im_finished_at := Some (clock s1)\<rparr>) s1)
          else
            (let selected = select_files mode last_idx files;
                 s2 = reset_counters (length selected) s1
             in if selected = [] then
                  (False, upd_import (\<lambda>st. st\<lparr>im_running := False,
                             im_finished_at := Some (clock s2)\<rparr>) s2)
                else
                  (case makedirs env of
                     Some msg \<Rightarrow> (False, crashed msg s2)
                   | None \<Rightarrow>
                       (case import_loop env 0 selected last_idx s2 of
                          (Crashed msg, max_idx, s3) \<Rightarrow> (False, crashed msg s3)
                        | (Cancelled, max_idx, s3) \<Rightarrow> (True, s3)
                        | (Completed, max_idx, s3) \<Rightarrow>
                            (False, if max_idx > last_idx
                                    then save_import_conf env max_idx s3 else s3)))))"

definition finish :: "bool \<Rightarrow> server_state \<Rightarrow> server_state" where
  "finish cancelled s1 =
     upd_import (\<lambda>st. st\<lparr>im_running := False, im_current := None,
                             im_finished_at := Some (clock s1),
                             im_last_error := (if cancelled \<and> \<not> truthy (im_last_error st)
                                               then Some ''cancelled by user''
                                               else im_last_error st)\<rparr>) s1"

definition import_worker :: "import_env \<Rightarrow> string \<Rightarrow> bool \<Rightarrow> server_state \<Rightarrow> server_state" where
  "import_worker env mode session s =
     (let (cancelled, s1) = import_body env mode session s
      in finish cancelled s1)"

text \<open>
  The handler of \<^verbatim>\<open>/api/import/start\<close>, up to the start of the worker thread: it
  refuses while a job runs, and resets the job state otherwise.
\<close>

definition import_start :: "string \<Rightarrow> bool \<Rightarrow> server_state \<Rightarrow> bool \<times> server_state" where
  "import_start mode0 session_flag s =
     (let mode = (if lower mode0 = ''all'' then ''all'' else ''new'') in
      if im_running (import_st s) then (False, s)
      else (True,
            upd_import (\<lambda>st. st\<lparr>im_running := True, im_mode := Some mode,
                        im_target := Some (if session_flag then ''session'' else ''root''),
                        im_total := 0, im_done := 0, im_imported := 0, im_skipped := 0,
                        im_errors := 0, im_current := None, im_started_at := Some (clock s),
                        im_finished_at := None, im_last_error := None,
                        im_auraface_sent := 0, im_auraface_failed := 0\<rparr>) s))"

subsection \<open>Card sync of the preview mirror: the transfer loop of
  \<^verbatim>\<open>_pull_latest_from_camera_for_preview\<close>\<close>

definition sync_attempts :: nat where
  "sync_attempts = 3"

definition sync_delay :: real where
  "sync_delay = 0.8"

definition sync_transient :: "string \<Rightarrow> bool" where
  "sync_transient output =
     (let msg = lower output in
      list_ex (\<lambda>kw. contains kw msg)
        [''could not claim the usb device'',
         ''device or resource busy'',
         ''device busy'',
         ''ptp i/o error''])"

record sync_env =
  fetch :: "nat \<Rightarrow> string outcome"
  sync_over :: real
  sync_save_ok :: bool

text \<open>
  Lines 713 to 787: the loop that fetches the chosen file \<open>target\<close>. \<open>fetch i\<close> is the
  \<open>i\<close>-th \<^verbatim>\<open>--get-file\<close> run. On success the marks of preview.json move to the target
  (when the file could be written).
\<close>

function preview_transfer :: "sync_env \<Rightarrow> camera_file \<Rightarrow> nat \<Rightarrow> server_state \<Rightarrow> server_state" where
  "preview_transfer env target i s =
     (if i < sync_attempts then
        (let s1 = emit [Acquire, Spawn, Reap, Release] s in
         case fetch env i of
           Returned out \<Rightarrow>
             (if sync_save_ok env
              then s1\<lparr>preview_last_index := f_index target,
                      preview_last_ts := (case f_ts target of
                                            None \<Rightarrow> preview_last_ts s1
                                          | Some t \<Rightarrow> if t \<noteq> 0 then t else preview_last_ts s1)\<rparr>
              else s1)
         | ProcError output \<Rightarrow>
             if sync_transient output \<and> i < sync_attempts - 1
             then preview_transfer env target (i + 1) (time_sleep (sync_over env) sync_delay s1)
             else s1
         | Raised msg \<Rightarrow> s1)
      else s)"
  by pat_completeness auto
termination
  by (relation "measure (\<lambda>(env, target, i, s). sync_attempts - i)") auto

declare preview_transfer.simps [simp del]

subsection \<open>Start-up values and helpers for reading results\<close>

definition init_state :: server_state where
  "init_state =
     \<lparr>LAST_CAPTURE_TS = 0,
      interval_st = \<lparr>iv_running = False, iv_interval = 0, iv_remaining = 0, iv_total = 0,
                     iv_last_error = None\<rparr>,
      import_st = \<lparr>im_running = False, im_mode = None, im_target = None, im_total = 0,
                   im_done = 0, im_imported = 0, im_skipped = 0, im_errors = 0,
                   im_current = None, im_started_at = None, im_finished_at = None,
                   im_last_error = None, im_auraface_sent = 0, im_auraface_failed = 0\<rparr>,
      import_conf = 0, preview_last_index = 0, preview_last_ts = 0,
      liveview_proc = None, liveview_running = False, clock = 0, trace = []\<rparr>"

definition is_returned :: "'a outcome \<Rightarrow> bool" where
  "is_returned r = (case r of Returned x \<Rightarrow> True | ProcError e \<Rightarrow> False | Raised m \<Rightarrow> False)"

definition busy_once :: "nat \<Rightarrow> string outcome" where
  "busy_once k = (if k < 1 then ProcError ''*** Error: Device Busy ***'' else Returned ''New file'')"

definition acquires :: "event list \<Rightarrow> nat" where
  "acquires es = length (filter (\<lambda>e. e = Acquire) es)"

definition capture_succeeds :: "capture_env \<Rightarrow> bool" where
  "capture_succeeds env = ok (fst (capture_one env init_state))"

definition after_tick :: "interval_env \<Rightarrow> nat \<Rightarrow> server_state \<Rightarrow> server_state" where
  "after_tick env k s =
     (let s3 = emit [Release] (snd (capture_one (tick env k) (emit [Acquire] s)))
      in s3\<lparr>interval_st := (interval_st s3)\<lparr>iv_remaining := iv_remaining (interval_st s3) - 1\<rparr>\<rparr>)"

definition good_shot :: capture_env where
  "good_shot =
     \<lparr>do_capture = (\<lambda>i. Returned ''New file''),
      saved = Returned [''20240101-120000.jpg''],
      tagging = Returned ([], None),
      set_config = (\<lambda>arg. Returned []),
      oversleep = 0\<rparr>"

definition bad_shot :: capture_env where
  "bad_shot = good_shot\<lparr>do_capture := (\<lambda>i. ProcError ''No camera found'')\<rparr>"

definition all_good :: interval_env where
  "all_good = \<lparr>tick = (\<lambda>k. good_shot), stop_req = (\<lambda>k. False), iv_over = 0\<rparr>"

definition second_fails :: interval_env where
  "second_fails =
     \<lparr>tick = (\<lambda>k. if k = 1 then bad_shot else good_shot), stop_req = (\<lambda>k. False),
      iv_over = 0\<rparr>"

definition extend :: "real \<Rightarrow> event list \<Rightarrow> server_state \<Rightarrow> server_state" where
  "extend d tr s = s\<lparr>clock := clock s + d, trace := trace s @ tr\<rparr>"

definition retry_trace :: "event list \<Rightarrow> bool" where
  "retry_trace tr \<longleftrightarrow>
     tr = [Spawn, Reap] \<or> tr = [Spawn, Reap, Sleep capture_delay, Spawn, Reap]"

fun held :: "bool \<Rightarrow> event list \<Rightarrow> bool" where
  "held h [] = h"
| "held h (Acquire # es) = held True es"
| "held h (Release # es) = held False es"
| "held h (e # es) = held h es"

fun locked_sleeps :: "bool \<Rightarrow> event list \<Rightarrow> real list" where
  "locked_sleeps h [] = []"
| "locked_sleeps h (Acquire # es) = locked_sleeps True es"
| "locked_sleeps h (Release # es) = locked_sleeps False es"
| "locked_sleeps h (Sleep d # es) = (if h then d # locked_sleeps h es else locked_sleeps h es)"
| "locked_sleeps h (e # es) = locked_sleeps h es"

text \<open>
  \<open>held h es\<close> says whether the thread holds \<^verbatim>\<open>cam_lock\<close> after the events \<open>es\<close>, when
  \<open>h\<close> said so before them; \<open>locked_sleeps h es\<close> lists the sleeps of \<open>es\<close> that
  happen while it holds the lock.
\<close>

fun transferred :: "import_env \<Rightarrow> nat \<Rightarrow> camera_file list \<Rightarrow> int list" where
  "transferred env k [] = []"
| "transferred env k (f # fs) =
     (if is_returned (get_file env k) then [f_index f] else []) @ transferred env (k + 1) fs"

text \<open>
  \<open>transferred env k fs\<close> lists the indices of the files of \<open>fs\<close> whose
  \<^verbatim>\<open>--get-file\<close> run returns, when the first of them is the \<open>k\<close>-th file of the job.
\<close>

definition gets :: "nat \<Rightarrow> event list" where
  "gets n = concat (replicate n [Spawn, Reap])"

definition locked_call :: "event list" where
  "locked_call = [Acquire, Spawn, Reap, Release]"

definition retries :: "nat \<Rightarrow> event list" where
  "retries n = concat (replicate n (Sleep sync_delay # locked_call))"

definition second_press :: server_state where
  "second_press = init_state\<lparr>LAST_CAPTURE_TS := 100, clock := 100.1\<rparr>"

text \<open>
  \<open>second_press\<close>: a capture request is served 0.1 s after the timestamp of the previous
  one.
\<close>

definition is_raised :: "'a outcome \<Rightarrow> bool" where
  "is_raised r = (case r of Returned x \<Rightarrow> False | ProcError e \<Rightarrow> False | Raised m \<Rightarrow> True)"

definition img :: "int \<Rightarrow> camera_file" where
  "img i = \<lparr>f_index = i, f_name = ''IMG.JPG'', f_ts = None\<rparr>"

definition card_listing :: "camera_file list" where
  "card_listing = [img 3, img 6, img 7, img 9]"

definition mark5 :: server_state where
  "mark5 = snd (import_start ''new'' True (init_state\<lparr>import_conf := 5\<rparr>))"

definition clean_card :: import_env where
  "clean_card =
     \<lparr>list_files = Returned card_listing,
      get_file = (\<lambda>k. Returned ''Saving file as IMG.JPG''),
      dest_exists = (\<lambda>k. True),
      cancel_set = (\<lambda>k. False),
      makedirs = None,
      save_ok = True\<rparr>"

definition top_fails :: import_env where
  "top_fails =
     clean_card\<lparr>get_file := (\<lambda>k. if k = 2 then ProcError ''*** Error: Device Busy ***''
                                   else Returned ''Saving file as IMG.JPG'')\<rparr>"


text \<open>
  \<open>mark5\<close> is the state in which a job has just been started in New mode with the
  persisted mark at 5; the card lists the indices 3, 6, 7 and 9. On \<open>clean_card\<close>
  every transfer succeeds, on \<open>top_fails\<close> the transfer of the last file (index 9)
  fails with a busy device, on \<open>cancel_after_one\<close> the stop request is seen before the
  second file.
\<close>

definition always_busy :: sync_env where
  "always_busy =
     \<lparr>fetch = (\<lambda>i. ProcError ''*** Error: Device Busy ***''), sync_over = 0,
      sync_save_ok = True\<rparr>"

subsection \<open>The MJPEG demuxer of \<^verbatim>\<open>live_stream\<close>\<close>

type_synonym byte = "8 word"

definition SOI :: "byte list" where
  "SOI = [0xFF, 0xD8]"

definition EOI :: "byte list" where
  "EOI = [0xFF, 0xD9]"

text \<open>
  \<open>bytes_find buf sub start\<close> is Python's \<^verbatim>\<open>buf.find(sub, start)\<close>: the lowest index
  from \<open>start\<close> on at which \<open>sub\<close> occurs in \<open>buf\<close>, \<open>None\<close> for \<^verbatim>\<open>-1\<close>.
\<close>

fun find_from :: "'a list \<Rightarrow> 'a list \<Rightarrow> nat \<Rightarrow> nat option" where
  "find_from sub [] i = (if sub = [] then Some i else None)"
| "find_from sub (x # xs) i =
     (if take (length sub) (x # xs) = sub then Some i else find_from sub xs (Suc i))"

definition bytes_find :: "'a list \<Rightarrow> 'a list \<Rightarrow> nat \<Rightarrow> nat option" where
  "bytes_find buf sub start =
     (if start \<le> length buf then find_from sub (drop start buf) start else None)"

text \<open>
  The inner \<^verbatim>\<open>while True\<close> of the generator: it takes the buffer (after the chunk has
  been appended), and returns the frames it yields and the buffer it leaves for the next
  read. The slices are \<^verbatim>\<open>buf[-3:]\<close>, \<^verbatim>\<open>buf[start:]\<close>, \<^verbatim>\<open>buf[start:end + 2]\<close> and
  \<^verbatim>\<open>buf[end + 2:]\<close>.
\<close>

function scan :: "byte list \<Rightarrow> byte list list \<times> byte list" where
  "scan buf =
     (case bytes_find buf SOI 0 of
        None \<Rightarrow> ([], drop (length buf - 3) buf)
      | Some start \<Rightarrow>
          (case bytes_find buf EOI (start + 2) of
             None \<Rightarrow> ([], drop start buf)
           | Some end \<Rightarrow>
               (let frame = take (end + 2 - start) (drop start buf);
                    (frames, rest) = scan (drop (end + 2) buf)
                in (frame # frames, rest))))"
  by pat_completeness auto
termination
proof (relation "measure length")
  show "wf (measure length)" by simp
next
  fix buf :: "byte list" and start e
  assume "bytes_find buf EOI (start + 2) = Some e"
  then have "start + 2 \<le> length buf"
    by (simp add: bytes_find_def split: if_splits)
  then show "(drop (e + 2) buf, buf) \<in> measure length" by simp
qed

declare scan.simps [simp del]

text \<open>
  The outer loop: \<open>chunks\<close> are the results of the successive
  \<^verbatim>\<open>proc.stdout.read(4096)\<close>; an empty read, or no read left, is the closed source.
  \<open>read_loop\<close> gives the frames in the order they are yielded; \<open>generate\<close> wraps each
  into its multipart part.
\<close>

fun read_loop :: "byte list list \<Rightarrow> byte list \<Rightarrow> byte list list" where
  "read_loop [] buf = []"
| "read_loop (chunk # chunks) buf =
     (if chunk = [] then []
      else (let (frames, buf') = scan (buf @ chunk) in frames @ read_loop chunks buf'))"

definition bytes_of :: "string \<Rightarrow> byte list" where
  "bytes_of s = map of_char s"

definition part :: "byte list \<Rightarrow> byte list" where
  "part frame =
     bytes_of ''--frame'' @ [13, 10] @ bytes_of ''Content-Type: image/jpeg'' @ [13, 10, 13, 10]
       @ frame @ [13, 10]"

definition demux :: "byte list list \<Rightarrow> byte list list" where
  "demux chunks = read_loop chunks []"

definition generate :: "byte list list \<Rightarrow> byte list list" where
  "generate chunks = map part (demux chunks)"

definition frame_A :: "byte list" where
  "frame_A = [0xFF, 0xD8, 0x41, 0x41, 0x41, 0xFF, 0xD9]"

definition frame_B :: "byte list" where
  "frame_B = [0xFF, 0xD8, 0x42, 0x42, 0x42, 0xFF, 0xD9]"

definition occ :: "'a list \<Rightarrow> 'a list \<Rightarrow> nat \<Rightarrow> bool" where
  "occ sub buf p \<longleftrightarrow> take (length sub) (drop p buf) = sub"

text \<open>\<open>occ sub buf p\<close>: \<open>sub\<close> occurs in \<open>buf\<close> at index \<open>p\<close>.\<close>

definition is_proc_error :: "'a outcome \<Rightarrow> bool" where
  "is_proc_error r = (case r of Returned x \<Rightarrow> False | ProcError e \<Rightarrow> True | Raised m \<Rightarrow> False)"

fun failed :: "import_env \<Rightarrow> nat \<Rightarrow> camera_file list \<Rightarrow> nat" where
  "failed env k [] = 0"
| "failed env k (f # fs) =
     (if is_proc_error (get_file env k) then 1 else 0) + failed env (k + 1) fs"

text \<open>
  \<open>failed env k fs\<close> counts the files of \<open>fs\<close> whose \<^verbatim>\<open>--get-file\<close> run ends in
  \<^verbatim>\<open>CalledProcessError\<close>, when the first of them is the \<open>k\<close>-th file of the job.
\<close>

definition first_fails :: import_env where
  "first_fails =
     clean_card\<lparr>get_file := (\<lambda>k. if k = 0 then ProcError ''*** Error: Device Busy ***''
                                   else Returned ''Saving file as IMG.JPG'')\<rparr>"

text \<open>
  On \<open>first_fails\<close> the transfer of the first selected file fails with a busy device
  and the later transfers succeed.
\<close>

definition framed :: "byte list \<Rightarrow> bool" where
  "framed f \<longleftrightarrow> take 2 f = SOI \<and> bytes_find f EOI 2 = Some (length f - 2)"

text \<open>
  \<open>framed f\<close>: \<open>f\<close> starts with the start marker and the first end marker from
  index 2 on is its last two bytes.
\<close>

subsection \<open>The movie stream of \<^verbatim>\<open>live_stream\<close>\<close>


subsection \<open>Threads sharing \<^verbatim>\<open>cam_lock\<close>\<close>





text \<open>
  A list of events is \<open>disciplined\<close> when every gphoto2 subprocess in it starts and ends
  inside a \<^verbatim>\<open>with cam_lock:\<close> block and the lock is released at the end.
\<close>

text \<open>
  Concurrent threads: thread \<open>t\<close> executes the events of the \<open>t\<close>-th list, in order,
  and a schedule says which thread does the next event. The device state holds the
  thread that owns \<^verbatim>\<open>cam_lock\<close>, the number of gphoto2 subprocesses started and not
  ended, and the highest value that number has had. \<open>Acquire\<close> is possible only when
  the lock is free: a schedule that picks a thread waiting for the lock, or one that has
  finished, is no execution (\<open>None\<close>).
\<close>

datatype device = Device (owner: "nat option") (inflight: nat) (peak: nat)


fun step :: "nat \<Rightarrow> event \<Rightarrow> device \<Rightarrow> device option" where
  "step t Acquire c =
     (if owner c = None then Some (Device (Some t) (inflight c) (peak c)) else None)"
| "step t Release c =
     (if owner c = Some t then Some (Device None (inflight c) (peak c)) else None)"
| "step t Spawn c =
     Some (Device (owner c) (inflight c + 1) (max (peak c) (inflight c + 1)))"
| "step t Reap c = Some (Device (owner c) (inflight c - 1) (peak c))"
| "step t (Sleep d) c = Some c"
| "step t (WaitProc d) c = Some c"

fun run :: "nat list \<Rightarrow> event list list \<Rightarrow> device \<Rightarrow> device option" where
  "run [] ps c = Some c"
| "run (t # ts) ps c =
     (if t < length ps
      then (case ps ! t of
              [] \<Rightarrow> None
            | e # es \<Rightarrow>
                (case step t e c of None \<Rightarrow> None | Some c' \<Rightarrow> run ts (ps[t := es]) c'))
      else None)"


text \<open>
  \<open>exclusive ms ps c\<close>: with thread \<open>t\<close> standing at \<open>ms ! t\<close>, the rest of every
  thread's events can be followed, the owner of the lock is the one thread that is not
  outside, and the number of subprocesses in flight is 1 when the owner has one running
  and 0 otherwise.
\<close>

section \<open>Verified properties\<close>

subsection \<open>The retry loop of the capture primitive\<close>

lemma capture_retry_first:
  "capture_retry gp over 0 s =
     (case gp 0 of
        Returned out \<Rightarrow> (Returned out, emit [Spawn, Reap] s)
      | Raised m \<Rightarrow> (Raised m, emit [Spawn, Reap] s)
      | ProcError e \<Rightarrow>
          if capture_transient e
          then (gp 1, emit [Spawn, Reap] (time_sleep over capture_delay (emit [Spawn, Reap] s)))
          else (ProcError e, emit [Spawn, Reap] s))"
  by (auto simp: capture_retry.simps [of gp over 0] capture_retry.simps [of gp over "Suc 0"]
        capture_attempts_def Let_def split: outcome.splits)

text \<open>
  C7. When \<^verbatim>\<open>_do_capture\<close> fails with a transient error \<open>N\<close> times and then succeeds,
  the retry loop of \<^verbatim>\<open>_capture_one\<close> is left by success exactly when
  \<open>N < capture_attempts\<close> (which is 2), and gphoto2 has been run \<open>min (N + 1) 2\<close> times.
  When the first failure is not transient (a \<^verbatim>\<open>CalledProcessError\<close> whose output has none
  of the keywords, or any other exception), gphoto2 has been run once and the failure is
  the loop's result.
\<close>

theorem C7_capture_retry:
  "capture_attempts = 2 \<and>
   ((\<forall>k<N. \<exists>e. gp k = ProcError e \<and> capture_transient e) \<and> gp N = Returned out \<longrightarrow>
      (is_returned (fst (capture_retry gp over 0 s)) \<longleftrightarrow> N < capture_attempts) \<and>
      spawns (trace (snd (capture_retry gp over 0 s))) =
        spawns (trace s) + min (N + 1) capture_attempts) \<and>
   (gp 0 = ProcError e \<and> \<not> capture_transient e \<longrightarrow>
      fst (capture_retry gp over 0 s) = ProcError e \<and>
      spawns (trace (snd (capture_retry gp over 0 s))) = spawns (trace s) + 1) \<and>
   (gp 0 = Raised m \<longrightarrow>
      fst (capture_retry gp over 0 s) = Raised m \<and>
      spawns (trace (snd (capture_retry gp over 0 s))) = spawns (trace s) + 1)"
proof (intro conjI impI)
  show "capture_attempts = 2" by (simp add: capture_attempts_def)
next
  assume h: "(\<forall>k<N. \<exists>e. gp k = ProcError e \<and> capture_transient e) \<and> gp N = Returned out"
  consider (zero) "N = 0" | (one) "N = 1" | (more) "2 \<le> N" by linarith
  then have both: "(is_returned (fst (capture_retry gp over 0 s)) \<longleftrightarrow> N < capture_attempts) \<and>
      spawns (trace (snd (capture_retry gp over 0 s))) =
        spawns (trace s) + min (N + 1) capture_attempts"
  proof cases
    case zero
    with h show ?thesis
      by (simp add: capture_retry_first capture_attempts_def is_returned_def spawns_def emit_def)
  next
    case one
    with h obtain e0 where "gp 0 = ProcError e0" "capture_transient e0" "gp 1 = Returned out"
      by auto
    then show ?thesis using one
      by (simp add: capture_retry_first capture_attempts_def is_returned_def spawns_def emit_def
            time_sleep_def)
  next
    case more
    then have "0 < N" "1 < N" by simp_all
    with h obtain e0 e1 where "gp 0 = ProcError e0" "capture_transient e0" "gp 1 = ProcError e1"
      by blast
    then show ?thesis using more
      by (simp add: capture_retry_first capture_attempts_def is_returned_def spawns_def emit_def
            time_sleep_def)
  qed
  from both show "is_returned (fst (capture_retry gp over 0 s)) \<longleftrightarrow> N < capture_attempts" ..
  from both show "spawns (trace (snd (capture_retry gp over 0 s))) =
        spawns (trace s) + min (N + 1) capture_attempts" ..
next
  assume h: "gp 0 = ProcError e \<and> \<not> capture_transient e"
  then show "fst (capture_retry gp over 0 s) = ProcError e"
    by (simp add: capture_retry_first)
  from h show "spawns (trace (snd (capture_retry gp over 0 s))) = spawns (trace s) + 1"
    by (simp add: capture_retry_first spawns_def emit_def)
next
  assume h: "gp 0 = Raised m"
  then show "fst (capture_retry gp over 0 s) = Raised m"
    by (simp add: capture_retry_first)
  from h show "spawns (trace (snd (capture_retry gp over 0 s))) = spawns (trace s) + 1"
    by (simp add: capture_retry_first spawns_def emit_def)
qed

theorem C7_capture_retry_witness:
  "busy_once 0 = ProcError ''*** Error: Device Busy ***'' \<and>
   capture_transient ''*** Error: Device Busy ***'' \<and>
   busy_once 1 = Returned ''New file'' \<and>
   is_returned (fst (capture_retry busy_once 0 0 init_state)) \<and>
   spawns (trace (snd (capture_retry busy_once 0 0 init_state))) = 2 \<and>
   \<not> capture_transient ''No camera found'' \<and>
   fst (capture_retry (\<lambda>k. ProcError ''No camera found'') 0 0 init_state)
     = ProcError ''No camera found'' \<and>
   spawns (trace (snd (capture_retry (\<lambda>k. ProcError ''No camera found'') 0 0 init_state))) = 1 \<and>
   spawns (trace (snd (capture_retry (\<lambda>k. Raised ''gphoto2 missing'') 0 0 init_state))) = 1"
proof -
  have tr: "capture_transient ''*** Error: Device Busy ***''" by code_simp
  have nt: "\<not> capture_transient ''No camera found''" by code_simp
  have a: "(\<forall>k<1. \<exists>e. busy_once k = ProcError e \<and> capture_transient e) \<and>
           busy_once 1 = Returned ''New file''"
    using tr by (simp add: busy_once_def)
  have z: "spawns (trace init_state) = 0" by (simp add: init_state_def spawns_def)
  have two: "min (1 + 1) capture_attempts = 2" "(1::nat) < capture_attempts"
    by (simp_all add: capture_attempts_def)
  note first = C7_capture_retry [where N = 1 and gp = busy_once and out = "''New file''"
      and over = 0 and s = init_state, THEN conjunct2, THEN conjunct1, rule_format, OF a]
  note second = C7_capture_retry [where gp = "\<lambda>k. ProcError ''No camera found''"
      and e = "''No camera found''" and over = 0 and s = init_state,
      THEN conjunct2, THEN conjunct2, THEN conjunct1, rule_format, OF conjI [OF refl nt]]
  note third = C7_capture_retry [where gp = "\<lambda>k. Raised ''gphoto2 missing''"
      and m = "''gphoto2 missing''" and over = 0 and s = init_state,
      THEN conjunct2, THEN conjunct2, THEN conjunct2, rule_format, OF refl]
  from first two z have f: "is_returned (fst (capture_retry busy_once 0 0 init_state))"
    "spawns (trace (snd (capture_retry busy_once 0 0 init_state))) = 2"
    by simp_all
  have b: "busy_once 0 = ProcError ''*** Error: Device Busy ***''"
    "busy_once 1 = Returned ''New file''"
    by (simp_all add: busy_once_def)
  from second z third show ?thesis
    using b tr nt f by simp
qed

subsection \<open>Facts about one call of the capture primitive\<close>

lemma sleeps_append: "sleeps (xs @ ys) = sleeps xs @ sleeps ys"
  by (induction xs rule: sleeps.induct) simp_all

lemma capture_retry_shape:
  "\<exists>r tr d. retry_trace tr \<and> (\<forall>s. capture_retry gp over 0 s = (r, extend d tr s))"
proof (cases "\<exists>e. gp 0 = ProcError e \<and> capture_transient e")
  case True
  then have "\<forall>s. capture_retry gp over 0 s = (gp 1,
      extend (capture_delay + over) [Spawn, Reap, Sleep capture_delay, Spawn, Reap] s)"
    by (auto simp: capture_retry_first extend_def emit_def time_sleep_def)
  then show ?thesis unfolding retry_trace_def by blast
next
  case False
  then have "\<forall>s. capture_retry gp over 0 s = (gp 0, extend 0 [Spawn, Reap] s)"
    by (auto simp: capture_retry_first extend_def emit_def split: outcome.split)
  then show ?thesis unfolding retry_trace_def by blast
qed

lemma capture_one_shape:
  "\<exists>r tr d err. retry_trace tr \<and> (ok r \<longleftrightarrow> err = None) \<and>
     (\<forall>s. capture_one env s =
        (r, (extend d tr s)\<lparr>interval_st :=
               (case err of None \<Rightarrow> interval_st s
                | Some e \<Rightarrow> (interval_st s)\<lparr>iv_last_error := Some e\<rparr>)\<rparr>))"
proof -
  obtain r0 tr d where tr: "retry_trace tr"
    and eq: "\<And>s. capture_retry (do_capture env) (oversleep env) 0 s = (r0, extend d tr s)"
    using capture_retry_shape [of "do_capture env" "oversleep env"] by blast
  have fail: "\<And>e s. capture_failed e (extend d tr s) =
      (\<lparr>ok = False, fname = None, gps_details = [], auraface_info = None\<rparr>,
       (extend d tr s)\<lparr>interval_st := (interval_st s)\<lparr>iv_last_error := Some e\<rparr>\<rparr>)"
    by (simp add: capture_failed_def extend_def)
  consider (fail) e where "\<forall>s. capture_one env s = capture_failed e (extend d tr s)"
    | (good) r where "ok r" "\<forall>s. capture_one env s = (r, extend d tr s)"
  proof (cases r0)
    case (ProcError e)
    then have "\<forall>s. capture_one env s = capture_failed e (extend d tr s)"
      by (simp add: capture_one_def eq)
    then show ?thesis by (rule fail)
  next
    case (Raised e)
    then have "\<forall>s. capture_one env s = capture_failed e (extend d tr s)"
      by (simp add: capture_one_def eq)
    then show ?thesis by (rule fail)
  next
    case (Returned out)
    show ?thesis
    proof (cases "saved env")
      case (ProcError e)
      with Returned have "\<forall>s. capture_one env s = capture_failed e (extend d tr s)"
        by (simp add: capture_one_def eq)
      then show ?thesis by (rule fail)
    next
      case (Raised e)
      with Returned have "\<forall>s. capture_one env s = capture_failed e (extend d tr s)"
        by (simp add: capture_one_def eq)
      then show ?thesis by (rule fail)
    next
      case files: (Returned files)
      let ?name = "case files of [] \<Rightarrow> [] | f # _ \<Rightarrow> f"
      show ?thesis
      proof (cases "?name \<noteq> []")
        case False
        with Returned files
        have "\<forall>s. capture_one env s = (\<lparr>ok = True, fname = Some ?name, gps_details = [],
                    auraface_info = None\<rparr>, extend d tr s)"
          by (simp add: capture_one_def eq)
        moreover have "ok \<lparr>ok = True, fname = Some ?name, gps_details = [],
                    auraface_info = None\<rparr>" by simp
        ultimately show ?thesis using good by blast
      next
        case True
        show ?thesis
        proof (cases "tagging env")
          case (ProcError e)
          with Returned files True
          have "\<forall>s. capture_one env s = capture_failed e (extend d tr s)"
            by (simp add: capture_one_def eq)
          then show ?thesis by (rule fail)
        next
          case (Raised e)
          with Returned files True
          have "\<forall>s. capture_one env s = capture_failed e (extend d tr s)"
            by (simp add: capture_one_def eq)
          then show ?thesis by (rule fail)
        next
          case tg: (Returned p)
          obtain gps aura where p: "p = (gps, aura)" by (cases p)
          with Returned files True tg
          have "\<forall>s. capture_one env s = (\<lparr>ok = True, fname = Some ?name, gps_details = gps,
                    auraface_info = aura\<rparr>, extend d tr s)"
            by (simp add: capture_one_def eq)
          moreover have "ok \<lparr>ok = True, fname = Some ?name, gps_details = gps,
                    auraface_info = aura\<rparr>" by simp
          ultimately show ?thesis using good by blast
        qed
      qed
    qed
  qed
  then show ?thesis
  proof cases
    case (fail e)
    let ?r = "\<lparr>ok = False, fname = None, gps_details = [], auraface_info = None\<rparr>"
    have "\<forall>s. capture_one env s =
        (?r, (extend d tr s)\<lparr>interval_st :=
            (case Some e of None \<Rightarrow> interval_st s
             | Some e \<Rightarrow> (interval_st s)\<lparr>iv_last_error := Some e\<rparr>)\<rparr>)"
      using fail by (simp add: capture_failed_def extend_def)
    moreover have "ok ?r \<longleftrightarrow> Some e = None" by simp
    ultimately show ?thesis using tr by blast
  next
    case (good r)
    then have "\<forall>s. capture_one env s =
        (r, (extend d tr s)\<lparr>interval_st :=
            (case None of None \<Rightarrow> interval_st s
             | Some e \<Rightarrow> (interval_st s)\<lparr>iv_last_error := Some e\<rparr>)\<rparr>)"
      by (simp add: extend_def)
    moreover have "ok r \<longleftrightarrow> (None :: string option) = None"
      using good by simp
    ultimately show ?thesis using tr by blast
  qed
qed

lemma capture_one_fst: "fst (capture_one env s) = fst (capture_one env s')"
  using capture_one_shape [of env] by auto

lemma capture_one_ok_iff: "ok (fst (capture_one env s)) = capture_succeeds env"
  unfolding capture_succeeds_def by (rule arg_cong [OF capture_one_fst])

lemma capture_one_interval_st_ok:
  "ok (fst (capture_one env s)) \<Longrightarrow> interval_st (snd (capture_one env s)) = interval_st s"
  using capture_one_shape [of env] by (auto simp: extend_def)

lemma capture_one_running:
  "iv_running (interval_st (snd (capture_one env s))) = iv_running (interval_st s)"
  using capture_one_shape [of env] by (auto simp: extend_def split: option.splits)

lemma capture_one_LAST:
  "LAST_CAPTURE_TS (snd (capture_one env s)) = LAST_CAPTURE_TS s"
  using capture_one_shape [of env] by (auto simp: extend_def)

lemma capture_one_acquires:
  "acquires (trace (snd (capture_one env s))) = acquires (trace s)"
  using capture_one_shape [of env]
  by (auto simp: extend_def acquires_def retry_trace_def)

lemma capture_one_sleeps:
  "set (sleeps (trace (snd (capture_one env s)))) \<subseteq> set (sleeps (trace s)) \<union> {capture_delay}"
  using capture_one_shape [of env]
  by (auto simp: extend_def sleeps_append retry_trace_def)


subsection \<open>The intervalometer loop\<close>

lemma interval_loop_rel:
  fixes R :: "server_state \<Rightarrow> server_state \<Rightarrow> bool"
  assumes rf: "\<And>s. R s s"
    and tr: "\<And>a b c. R a b \<Longrightarrow> R b c \<Longrightarrow> R a c"
    and iv: "\<And>s v. R s (s\<lparr>interval_st := v\<rparr>)"
    and shot: "\<And>s k. R s (emit [Release] (snd (capture_one (tick env k) (emit [Acquire] s))))"
    and sl: "\<And>s. R s (time_sleep (iv_over env) interval_s s)"
  shows "R s (interval_loop env interval_s k s)"
  using assms
proof (induction env interval_s k s rule: interval_loop.induct)
  case (1 env interval_s k s)
  define s0 where "s0 = (if stop_req env k
             then s\<lparr>interval_st := (interval_st s)\<lparr>iv_running := False\<rparr>\<rparr> else s)"
  define r where "r = fst (capture_one (tick env k) (emit [Acquire] s0))"
  define s2 where "s2 = snd (capture_one (tick env k) (emit [Acquire] s0))"
  define s3 where "s3 = emit [Release] s2"
  define s4 where "s4 = s3\<lparr>interval_st :=
                   (interval_st s3)\<lparr>iv_remaining := iv_remaining (interval_st s3) - 1\<rparr>\<rparr>"
  note rf = "1.prems"(1) and tr = "1.prems"(2) and iv = "1.prems"(3) and shot = "1.prems"(4)
    and sl = "1.prems"(5)
  have a0: "R s s0" unfolding s0_def using rf iv by simp
  have a3: "R s0 s3" unfolding s3_def s2_def by (rule shot)
  have a4: "R s3 s4" unfolding s4_def by (rule iv)
  have s4: "R s s4" using a0 a3 a4 tr by blast
  have unfold: "interval_loop env interval_s k s =
       (if \<not> iv_running (interval_st s0) then s0
        else if iv_remaining (interval_st s0) \<le> 0
        then s0\<lparr>interval_st := (interval_st s0)\<lparr>iv_running := False\<rparr>\<rparr>
        else if \<not> ok r then s3\<lparr>interval_st := (interval_st s3)\<lparr>iv_running := False\<rparr>\<rparr>
        else if interval_s \<le> 0 then interval_loop env interval_s (k + 1) s4
        else interval_loop env interval_s (k + 1) (time_sleep (iv_over env) interval_s s4))"
    by (subst interval_loop.simps) (simp add: Let_def s0_def r_def s2_def s3_def s4_def)
  show ?case
  proof (cases "iv_running (interval_st s0) \<and> \<not> iv_remaining (interval_st s0) \<le> 0 \<and> ok r")
    case False
    then consider "\<not> iv_running (interval_st s0)"
      | "iv_running (interval_st s0)" "iv_remaining (interval_st s0) \<le> 0"
      | "iv_running (interval_st s0)" "\<not> iv_remaining (interval_st s0) \<le> 0" "\<not> ok r"
      by blast
    then show ?thesis
    proof cases
      case 1
      then show ?thesis using a0 by (simp add: unfold)
    next
      case 2
      then show ?thesis using tr [OF a0 iv] by (simp add: unfold)
    next
      case 3
      then show ?thesis using tr [OF tr [OF a0 a3] iv] by (simp add: unfold)
    qed
  next
    case True
    then have run: "\<not> \<not> iv_running (interval_st s0)" and pos: "\<not> iv_remaining (interval_st s0) \<le> 0"
      and good: "\<not> \<not> ok r" by auto
    show ?thesis
    proof (cases "interval_s \<le> 0")
      case le: True
      have ih: "R s4 (interval_loop env interval_s (k + 1) s4)"
        by (rule "1.IH"(1) [OF s0_def run pos s2_def r_def s3_def good s4_def le rf tr iv shot sl])
      have res: "interval_loop env interval_s k s = interval_loop env interval_s (k + 1) s4"
        using True le by (simp add: unfold)
      show ?thesis unfolding res by (rule tr [OF s4 ih])
    next
      case gt: False
      have ih: "R (time_sleep (iv_over env) interval_s s4)
              (interval_loop env interval_s (k + 1) (time_sleep (iv_over env) interval_s s4))"
        by (rule "1.IH"(2) [OF s0_def run pos s2_def r_def s3_def good s4_def gt rf tr iv shot sl])
      have res: "interval_loop env interval_s k s
          = interval_loop env interval_s (k + 1) (time_sleep (iv_over env) interval_s s4)"
        using True gt by (simp add: unfold)
      show ?thesis unfolding res by (rule tr [OF tr [OF s4 sl] ih])
    qed
  qed
qed

lemma interval_loop_stop:
  "\<not> stop_req env k \<Longrightarrow> iv_running (interval_st s) \<Longrightarrow> iv_remaining (interval_st s) \<le> 0 \<Longrightarrow>
   interval_loop env interval_s k s = s\<lparr>interval_st := (interval_st s)\<lparr>iv_running := False\<rparr>\<rparr>"
  by (simp add: interval_loop.simps [of env interval_s k s])

lemma interval_loop_ok:
  "\<not> stop_req env k \<Longrightarrow> iv_running (interval_st s) \<Longrightarrow> 0 < iv_remaining (interval_st s) \<Longrightarrow>
   capture_succeeds (tick env k) \<Longrightarrow> interval_s \<le> 0 \<Longrightarrow>
   interval_loop env interval_s k s = interval_loop env interval_s (k + 1) (after_tick env k s)"
  by (simp add: interval_loop.simps [of env interval_s k s] capture_one_ok_iff after_tick_def
        Let_def)

lemma interval_loop_fail:
  "\<not> stop_req env k \<Longrightarrow> iv_running (interval_st s) \<Longrightarrow> 0 < iv_remaining (interval_st s) \<Longrightarrow>
   \<not> capture_succeeds (tick env k) \<Longrightarrow>
   interval_loop env interval_s k s =
     (let s3 = emit [Release] (snd (capture_one (tick env k) (emit [Acquire] s)))
      in s3\<lparr>interval_st := (interval_st s3)\<lparr>iv_running := False\<rparr>\<rparr>)"
  by (simp add: interval_loop.simps [of env interval_s k s] capture_one_ok_iff Let_def)

lemma after_tick_facts:
  assumes "capture_succeeds (tick env k)"
  shows "iv_running (interval_st (after_tick env k s)) = iv_running (interval_st s)"
    and "iv_remaining (interval_st (after_tick env k s)) = iv_remaining (interval_st s) - 1"
    and "acquires (trace (after_tick env k s)) = acquires (trace s) + 1"
    and "set (sleeps (trace (after_tick env k s))) \<subseteq> set (sleeps (trace s)) \<union> {capture_delay}"
proof -
  let ?c = "capture_one (tick env k) (emit [Acquire] s)"
  show "iv_running (interval_st (after_tick env k s)) = iv_running (interval_st s)"
    by (simp add: after_tick_def Let_def emit_def capture_one_running)
  show "iv_remaining (interval_st (after_tick env k s)) = iv_remaining (interval_st s) - 1"
    by (simp add: after_tick_def Let_def emit_def capture_one_remaining)
  have "acquires (trace (snd ?c)) = acquires (trace (emit [Acquire] s))"
    by (rule capture_one_acquires)
  then show "acquires (trace (after_tick env k s)) = acquires (trace s) + 1"
    by (simp add: after_tick_def Let_def emit_def acquires_def)
  have "set (sleeps (trace (snd ?c))) \<subseteq> set (sleeps (trace (emit [Acquire] s))) \<union> {capture_delay}"
    by (rule capture_one_sleeps)
  then show "set (sleeps (trace (after_tick env k s))) \<subseteq> set (sleeps (trace s)) \<union> {capture_delay}"
    by (simp add: after_tick_def Let_def emit_def sleeps_append)
qed

text \<open>All n remaining captures succeed.\<close>
lemma interval_loop_all_ok:
  "iv_running (interval_st s) \<Longrightarrow> iv_remaining (interval_st s) = int n \<Longrightarrow> interval_s \<le> 0 \<Longrightarrow>
   (\<And>j. j \<le> n \<Longrightarrow> \<not> stop_req env (k + j)) \<Longrightarrow>
   (\<And>j. j < n \<Longrightarrow> capture_succeeds (tick env (k + j))) \<Longrightarrow>
   \<not> iv_running (interval_st (interval_loop env interval_s k s)) \<and>
   iv_remaining (interval_st (interval_loop env interval_s k s)) = 0 \<and>
   acquires (trace (interval_loop env interval_s k s)) = acquires (trace s) + n \<and>
   set (sleeps (trace (interval_loop env interval_s k s))) \<subseteq> set (sleeps (trace s)) \<union> {capture_delay}"
proof (induction n arbitrary: k s)
  case 0
  from "0.prems"(4) [of 0] have "\<not> stop_req env k" by simp
  with 0 show ?case by (auto simp: interval_loop_stop)
next
  case (Suc n)
  from Suc.prems(4) [of 0] have ns: "\<not> stop_req env k" by simp
  from Suc.prems(5) [of 0] have good: "capture_succeeds (tick env k)" by simp
  have unfold: "interval_loop env interval_s k s
                = interval_loop env interval_s (k + 1) (after_tick env k s)"
    using ns Suc.prems(1,2,3) good by (simp add: interval_loop_ok)
  have r: "iv_running (interval_st (after_tick env k s))"
    using after_tick_facts(1) [OF good] Suc.prems(1) by simp
  have m: "iv_remaining (interval_st (after_tick env k s)) = int n"
    using after_tick_facts(2) [OF good, of s] Suc.prems(2) by simp
  have st: "\<And>j. j \<le> n \<Longrightarrow> \<not> stop_req env (k + 1 + j)"
    using Suc.prems(4) by (metis Suc_le_mono add_Suc_right add_Suc_shift Suc_eq_plus1)
  have su: "\<And>j. j < n \<Longrightarrow> capture_succeeds (tick env (k + 1 + j))"
    using Suc.prems(5) by (metis Suc_less_eq add_Suc_right add_Suc_shift Suc_eq_plus1)
  note ih = Suc.IH [OF r m Suc.prems(3) st su]
  show ?case
    unfolding unfold using ih after_tick_facts(3,4) [OF good, of s] by auto
qed

text \<open>The first m captures succeed and the next one fails.\<close>
lemma interval_loop_first_failure:
  "iv_running (interval_st s) \<Longrightarrow> iv_remaining (interval_st s) = int n \<Longrightarrow> interval_s \<le> 0 \<Longrightarrow>
   m < n \<Longrightarrow>
   (\<And>j. j \<le> m \<Longrightarrow> \<not> stop_req env (k + j)) \<Longrightarrow>
   (\<And>j. j < m \<Longrightarrow> capture_succeeds (tick env (k + j))) \<Longrightarrow>
   \<not> capture_succeeds (tick env (k + m)) \<Longrightarrow>
   \<not> iv_running (interval_st (interval_loop env interval_s k s)) \<and>
   iv_remaining (interval_st (interval_loop env interval_s k s)) = int n - int m \<and>
   acquires (trace (interval_loop env interval_s k s)) = acquires (trace s) + m + 1"
proof (induction m arbitrary: k s n)
  case 0
  from "0.prems"(5) [of 0] have ns: "\<not> stop_req env k" by simp
  from "0.prems" have bad: "\<not> capture_succeeds (tick env k)" by simp
  have pos: "0 < iv_remaining (interval_st s)" using "0.prems"(2,4) by simp
  let ?c = "capture_one (tick env k) (emit [Acquire] s)"
  have a: "acquires (trace (snd ?c)) = acquires (trace (emit [Acquire] s))"
    by (rule capture_one_acquires)
  have b: "iv_remaining (interval_st (snd ?c)) = iv_remaining (interval_st (emit [Acquire] s))"
    by (rule capture_one_remaining)
  show ?case
    using a b "0.prems"(2)
    by (simp add: interval_loop_fail [OF ns "0.prems"(1) pos bad] Let_def emit_def acquires_def)
next
  case (Suc m)
  from Suc.prems(5) [of 0] have ns: "\<not> stop_req env k" by simp
  from Suc.prems(6) [of 0] have good: "capture_succeeds (tick env k)" by simp
  obtain n' where n': "n = Suc n'" using Suc.prems(4) by (cases n) auto
  have pos: "0 < iv_remaining (interval_st s)" using Suc.prems(2,4) by simp
  have unfold: "interval_loop env interval_s k s
                = interval_loop env interval_s (k + 1) (after_tick env k s)"
    using ns Suc.prems(1,3) pos good by (simp add: interval_loop_ok)
  have r: "iv_running (interval_st (after_tick env k s))"
    using after_tick_facts(1) [OF good] Suc.prems(1) by simp
  have rem: "iv_remaining (interval_st (after_tick env k s)) = int n'"
    using after_tick_facts(2) [OF good, of s] Suc.prems(2) n' by simp
  have lt: "m < n'" using Suc.prems(4) n' by simp
  have st: "\<And>j. j \<le> m \<Longrightarrow> \<not> stop_req env (k + 1 + j)"
    using Suc.prems(5) by (metis Suc_le_mono add_Suc_right add_Suc_shift Suc_eq_plus1)
  have su: "\<And>j. j < m \<Longrightarrow> capture_succeeds (tick env (k + 1 + j))"
    using Suc.prems(6) by (metis Suc_less_eq add_Suc_right add_Suc_shift Suc_eq_plus1)
  have bad: "\<not> capture_succeeds (tick env (k + 1 + m))"
    using Suc.prems(7) by simp
  note ih = Suc.IH [OF r rem Suc.prems(3) lt st su bad]
  show ?case
    unfolding unfold using ih after_tick_facts(3) [OF good, of s] n' by simp
qed

lemma good_shot_succeeds: "capture_succeeds good_shot"
  by (simp add: capture_succeeds_def capture_one_def capture_retry_first good_shot_def)

lemma bad_shot_fails: "\<not> capture_succeeds bad_shot"
proof -
  have "\<not> capture_transient ''No camera found''" by code_simp
  then show ?thesis
    by (simp add: capture_succeeds_def capture_one_def capture_retry_first good_shot_def
          bad_shot_def capture_failed_def)
qed

lemma interval_worker_loop:
  "interval_status (interval_worker env interval_s count s) =
     (interval_st (interval_loop env interval_s 0
        (s\<lparr>interval_st := \<lparr>iv_running = True, iv_interval = interval_s, iv_remaining = count,
                    iv_total = count, iv_last_error = None\<rparr>\<rparr>)))\<lparr>iv_running := False\<rparr>"
  "trace (interval_worker env interval_s count s) =
     trace (interval_loop env interval_s 0
        (s\<lparr>interval_st := \<lparr>iv_running = True, iv_interval = interval_s, iv_remaining = count,
                    iv_total = count, iv_last_error = None\<rparr>\<rparr>))"
  by (simp_all add: interval_worker_def interval_status_def Let_def)

text \<open>
  C3 (as amended). When no stop request arrives, an intervalometer job started with
  \<open>count = 3\<close> and \<open>interval = 0\<close> calls the capture primitive exactly 3 times if
  all three captures succeed, sleeps for nothing but the retry delay inside the capture
  primitive, and ends with \<open>remaining = 0\<close> and \<open>running = False\<close>. If the first
  capture succeeds and the second fails, the primitive is called exactly twice (no third
  attempt) and the job ends with \<open>running = False\<close> and \<open>remaining = 2\<close>: remaining
  is decremented only after a successful capture.
\<close>

theorem C3_interval_worker:
  assumes quiet: "\<forall>k. \<not> stop_req env k"
  shows "((\<forall>k<3. capture_succeeds (tick env k)) \<longrightarrow>
           acquires (trace (interval_worker env 0 3 s)) = acquires (trace s) + 3 \<and>
           set (sleeps (trace (interval_worker env 0 3 s)))
             \<subseteq> set (sleeps (trace s)) \<union> {capture_delay} \<and>
           iv_remaining (interval_status (interval_worker env 0 3 s)) = 0 \<and>
           \<not> iv_running (interval_status (interval_worker env 0 3 s))) \<and>
         (capture_succeeds (tick env 0) \<and> \<not> capture_succeeds (tick env 1) \<longrightarrow>
           acquires (trace (interval_worker env 0 3 s)) = acquires (trace s) + 2 \<and>
           iv_remaining (interval_status (interval_worker env 0 3 s)) = 2 \<and>
           \<not> iv_running (interval_status (interval_worker env 0 3 s)))"
proof (intro conjI impI)
  let ?s0 = "s\<lparr>interval_st := \<lparr>iv_running = True, iv_interval = 0, iv_remaining = 3,
                    iv_total = 3, iv_last_error = None\<rparr>\<rparr>"
  {
    assume good: "\<forall>k<3. capture_succeeds (tick env k)"
    have "\<not> iv_running (interval_st (interval_loop env 0 0 ?s0)) \<and>
          iv_remaining (interval_st (interval_loop env 0 0 ?s0)) = 0 \<and>
          acquires (trace (interval_loop env 0 0 ?s0)) = acquires (trace ?s0) + 3 \<and>
          set (sleeps (trace (interval_loop env 0 0 ?s0)))
            \<subseteq> set (sleeps (trace ?s0)) \<union> {capture_delay}"
      using quiet good by (intro interval_loop_all_ok) simp_all
    then have all: "acquires (trace (interval_worker env 0 3 s)) = acquires (trace s) + 3 \<and>
           set (sleeps (trace (interval_worker env 0 3 s)))
             \<subseteq> set (sleeps (trace s)) \<union> {capture_delay} \<and>
           iv_remaining (interval_status (interval_worker env 0 3 s)) = 0 \<and>
           \<not> iv_running (interval_status (interval_worker env 0 3 s))"
      by (simp add: interval_worker_loop)
    from all show "acquires (trace (interval_worker env 0 3 s)) = acquires (trace s) + 3" by simp
    from all show "set (sleeps (trace (interval_worker env 0 3 s)))
             \<subseteq> set (sleeps (trace s)) \<union> {capture_delay}" by simp
    from all show "iv_remaining (interval_status (interval_worker env 0 3 s)) = 0" by simp
    from all show "\<not> iv_running (interval_status (interval_worker env 0 3 s))" by simp
  }
  {
    assume mixed: "capture_succeeds (tick env 0) \<and> \<not> capture_succeeds (tick env 1)"
    have "\<not> iv_running (interval_st (interval_loop env 0 0 ?s0)) \<and>
          iv_remaining (interval_st (interval_loop env 0 0 ?s0)) = int 3 - int 1 \<and>
          acquires (trace (interval_loop env 0 0 ?s0)) = acquires (trace ?s0) + 1 + 1"
      using quiet mixed by (intro interval_loop_first_failure) simp_all
    then have part: "acquires (trace (interval_worker env 0 3 s)) = acquires (trace s) + 2 \<and>
           iv_remaining (interval_status (interval_worker env 0 3 s)) = 2 \<and>
           \<not> iv_running (interval_status (interval_worker env 0 3 s))"
      by (simp add: interval_worker_loop)
    from part show "acquires (trace (interval_worker env 0 3 s)) = acquires (trace s) + 2" by simp
    from part show "iv_remaining (interval_status (interval_worker env 0 3 s)) = 2" by simp
    from part show "\<not> iv_running (interval_status (interval_worker env 0 3 s))" by simp
  }
qed

theorem C3_interval_worker_witness:
  "capture_succeeds (tick second_fails 0) \<and> \<not> capture_succeeds (tick second_fails 1) \<and>
   acquires (trace (interval_worker second_fails 0 3 init_state)) = 2 \<and>
   iv_remaining (interval_status (interval_worker second_fails 0 3 init_state)) = 2 \<and>
   \<not> iv_running (interval_status (interval_worker second_fails 0 3 init_state)) \<and>
   capture_succeeds (tick all_good 0) \<and> capture_succeeds (tick all_good 1) \<and>
   capture_succeeds (tick all_good 2) \<and>
   acquires (trace (interval_worker all_good 0 3 init_state)) = 3 \<and>
   iv_remaining (interval_status (interval_worker all_good 0 3 init_state)) = 0"
proof -
  have q: "\<forall>k. \<not> stop_req second_fails k" by (simp add: second_fails_def)
  have q': "\<forall>k. \<not> stop_req all_good k" by (simp add: all_good_def)
  have m: "capture_succeeds (tick second_fails 0) \<and> \<not> capture_succeeds (tick second_fails 1)"
    using good_shot_succeeds bad_shot_fails by (simp add: second_fails_def)
  have g: "\<forall>k<3. capture_succeeds (tick all_good k)"
    using good_shot_succeeds by (simp add: all_good_def)
  have z: "acquires (trace init_state) = 0" by (simp add: init_state_def acquires_def)
  note a = C3_interval_worker [OF q, of init_state, THEN conjunct2, THEN mp, OF m]
  note b = C3_interval_worker [OF q', of init_state, THEN conjunct1, THEN mp, OF g]
  from a b z m g show ?thesis by simp
qed

text \<open>
  The claim as stated has \<open>remaining = 1\<close> after the failed second capture; the
  worker leaves 2.
\<close>

theorem C3_remaining_counterexample:
  "capture_succeeds (tick second_fails 0) \<and> \<not> capture_succeeds (tick second_fails 1) \<and>
   iv_remaining (interval_status (interval_worker second_fails 0 3 init_state)) \<noteq> 1"
proof -
  let ?s0 = "init_state\<lparr>interval_st := \<lparr>iv_running = True, iv_interval = 0, iv_remaining = 3,
                    iv_total = 3, iv_last_error = None\<rparr>\<rparr>"
  have m: "capture_succeeds (tick second_fails 0)" "\<not> capture_succeeds (tick second_fails 1)"
    using good_shot_succeeds bad_shot_fails by (simp_all add: second_fails_def)
  have "\<not> iv_running (interval_st (interval_loop second_fails 0 0 ?s0)) \<and>
        iv_remaining (interval_st (interval_loop second_fails 0 0 ?s0)) = int 3 - int 1 \<and>
        acquires (trace (interval_loop second_fails 0 0 ?s0)) = acquires (trace ?s0) + 1 + 1"
    using m by (intro interval_loop_first_failure) (simp_all add: second_fails_def)
  then have "iv_remaining (interval_status (interval_worker second_fails 0 3 init_state)) = 2"
    by (simp add: interval_worker_loop)
  with m show ?thesis by simp
qed

subsection \<open>The manual capture handler\<close>

lemma set_liveview_keys_frame:
  "interval_st (snd (set_liveview_keys gp val ks s)) = interval_st s \<and>
   LAST_CAPTURE_TS (snd (set_liveview_keys gp val ks s)) = LAST_CAPTURE_TS s \<and>
   clock (snd (set_liveview_keys gp val ks s)) = clock s"
  by (induction ks arbitrary: s) (auto simp: emit_def Let_def split: outcome.splits)

lemma stop_hold_frame:
  "interval_st (stop_hold env s) = interval_st s \<and>
   LAST_CAPTURE_TS (stop_hold env s) = LAST_CAPTURE_TS s \<and>
   clock (stop_hold env s) = clock s"
  by (auto simp: stop_hold_def liveview_proc_running_def liveview_proc_stop_def set_liveview_def
        set_liveview_keys_frame emit_def split: option.splits proc.splits)



lemma capture_snd:
  "snd (capture env s) =
     emit [Release] (snd (capture_one env (stop_hold env (cooldown env (emit [Acquire] s)))))"
  by (simp add: capture_def Let_def split: prod.splits)




subsection \<open>Frame properties of the intervalometer\<close>

lemma held_append: "held h (xs @ ys) = held (held h xs) ys"
  by (induction h xs rule: held.induct) simp_all

lemma locked_sleeps_append:
  "locked_sleeps h (xs @ ys) = locked_sleeps h xs @ locked_sleeps (held h xs) ys"
  by (induction h xs rule: locked_sleeps.induct) simp_all

lemma capture_one_held:
  "held h (trace (snd (capture_one env s))) = held h (trace s)"
  using capture_one_shape [of env]
  by (auto simp: extend_def held_append retry_trace_def)

lemma capture_one_locked_sleeps:
  "set (locked_sleeps h (trace (snd (capture_one env s))))
     \<subseteq> set (locked_sleeps h (trace s)) \<union> {capture_delay}"
  using capture_one_shape [of env]
  by (auto simp: extend_def locked_sleeps_append retry_trace_def split: if_splits)

lemma interval_loop_LAST:
  "LAST_CAPTURE_TS (interval_loop env interval_s k s) = LAST_CAPTURE_TS s"
  by (rule interval_loop_rel [where R = "\<lambda>a b. LAST_CAPTURE_TS b = LAST_CAPTURE_TS a"])
     (simp_all add: emit_def time_sleep_def capture_one_LAST)

lemma interval_loop_sleeps:
  "set (sleeps (trace (interval_loop env interval_s k s)))
     \<subseteq> set (sleeps (trace s)) \<union> {capture_delay, interval_s}"
proof (rule interval_loop_rel [where R = "\<lambda>a b. set (sleeps (trace b))
     \<subseteq> set (sleeps (trace a)) \<union> {capture_delay, interval_s}"])
  fix s k
  have "set (sleeps (trace (snd (capture_one (tick env k) (emit [Acquire] s)))))
          \<subseteq> set (sleeps (trace (emit [Acquire] s))) \<union> {capture_delay}"
    by (rule capture_one_sleeps)
  then show "set (sleeps (trace (emit [Release]
                (snd (capture_one (tick env k) (emit [Acquire] s))))))
        \<subseteq> set (sleeps (trace s)) \<union> {capture_delay, interval_s}"
    by (auto simp: emit_def sleeps_append)
qed (auto simp: emit_def time_sleep_def sleeps_append)

lemma interval_loop_locked:
  "\<not> held False (trace s) \<Longrightarrow>
   \<not> held False (trace (interval_loop env interval_s k s)) \<and>
   set (locked_sleeps False (trace (interval_loop env interval_s k s)))
     \<subseteq> set (locked_sleeps False (trace s)) \<union> {capture_delay}"
proof (rule interval_loop_rel [where R = "\<lambda>a b. \<not> held False (trace a) \<longrightarrow>
   \<not> held False (trace b) \<and>
   set (locked_sleeps False (trace b)) \<subseteq> set (locked_sleeps False (trace a)) \<union> {capture_delay}",
   THEN mp])
  fix s k
  let ?c = "snd (capture_one (tick env k) (emit [Acquire] s))"
  have a: "held False (trace ?c) = held False (trace (emit [Acquire] s))"
    by (rule capture_one_held)
  have b: "set (locked_sleeps False (trace ?c))
      \<subseteq> set (locked_sleeps False (trace (emit [Acquire] s))) \<union> {capture_delay}"
    by (rule capture_one_locked_sleeps)
  show "\<not> held False (trace s) \<longrightarrow>
   \<not> held False (trace (emit [Release] ?c)) \<and>
   set (locked_sleeps False (trace (emit [Release] ?c)))
     \<subseteq> set (locked_sleeps False (trace s)) \<union> {capture_delay}"
    using a b by (auto simp: emit_def held_append locked_sleeps_append)
qed (auto simp: emit_def time_sleep_def held_append locked_sleeps_append)

subsection \<open>The import worker\<close>

lemma gets_Suc: "[Spawn, Reap] @ gets n = gets (Suc n)"
  by (simp add: gets_def)

lemma import_loop_shape:
  "\<exists>n. trace (snd (snd (import_loop env k sel mx s))) = trace s @ gets n \<and>
       im_done (import_st (snd (snd (import_loop env k sel mx s)))) = im_done (import_st s) + n \<and>
       LAST_CAPTURE_TS (snd (snd (import_loop env k sel mx s))) = LAST_CAPTURE_TS s \<and>
       clock (snd (snd (import_loop env k sel mx s))) = clock s \<and>
       import_conf (snd (snd (import_loop env k sel mx s))) = import_conf s \<and>
       interval_st (snd (snd (import_loop env k sel mx s))) = interval_st s \<and>
       im_running (import_st (snd (snd (import_loop env k sel mx s)))) = im_running (import_st s)"
proof (induction sel arbitrary: k mx s)
  case Nil
  have "trace s = trace s @ gets 0" by (simp add: gets_def)
  then show ?case by (intro exI [of _ 0]) simp
next
  case (Cons item rest)
  show ?case
  proof (cases "cancel_set env k \<or> \<not> im_running (import_st s)")
    case True
    have "trace s = trace s @ gets 0" by (simp add: gets_def)
    with True show ?thesis by (intro exI [of _ 0]) auto
  next
    case False
    define s2 where "s2 = emit [Spawn, Reap]
        (upd_import (\<lambda>st. st\<lparr>im_current := Some (f_name item)\<rparr>) s)"
    show ?thesis
    proof (cases "get_file env k")
      case (Raised msg)
      have "trace s @ [Spawn, Reap] = trace s @ gets 1" by (simp add: gets_def)
      with False Raised show ?thesis
        by (intro exI [of _ 1]) (simp add: Let_def emit_def upd_import_def)
    next
      case (ProcError e)
      define s3 where "s3 = upd_import (\<lambda>st. st\<lparr>im_done := im_done st + 1\<rparr>)
                     (upd_import (\<lambda>st. st\<lparr>im_errors := im_errors st + 1,
                                            im_last_error := Some e\<rparr>) s2)"
      have step: "import_loop env k (item # rest) mx s = import_loop env (k + 1) rest mx s3"
        using False ProcError by (simp add: s3_def s2_def Let_def)
      obtain n where n: "trace (snd (snd (import_loop env (k + 1) rest mx s3))) = trace s3 @ gets n"
        "im_done (import_st (snd (snd (import_loop env (k + 1) rest mx s3)))) = im_done (import_st s3) + n"
        "LAST_CAPTURE_TS (snd (snd (import_loop env (k + 1) rest mx s3))) = LAST_CAPTURE_TS s3"
        "clock (snd (snd (import_loop env (k + 1) rest mx s3))) = clock s3"
        "import_conf (snd (snd (import_loop env (k + 1) rest mx s3))) = import_conf s3"
        "interval_st (snd (snd (import_loop env (k + 1) rest mx s3))) = interval_st s3"
        "im_running (import_st (snd (snd (import_loop env (k + 1) rest mx s3)))) = im_running (import_st s3)"
        using Cons.IH [of "k + 1" mx s3] by blast
      have s3: "trace s3 = trace s @ [Spawn, Reap]" "im_done (import_st s3) = im_done (import_st s) + 1"
        "LAST_CAPTURE_TS s3 = LAST_CAPTURE_TS s" "clock s3 = clock s" "import_conf s3 = import_conf s"
        "interval_st s3 = interval_st s" "im_running (import_st s3) = im_running (import_st s)"
        by (simp_all add: s3_def s2_def emit_def upd_import_def)
      have "trace s3 @ gets n = trace s @ gets (Suc n)"
        by (simp add: s3 gets_def)
      with n s3 show ?thesis unfolding step by (intro exI [of _ "Suc n"]) simp
    next
      case (Returned out)
      define s3 where "s3 = upd_import (\<lambda>st. st\<lparr>im_done := im_done st + 1\<rparr>)
         (if dest_exists env k \<and> \<not> (contains ''File exists'' out \<or> contains ''already exists'' out)
          then upd_import (\<lambda>st. st\<lparr>im_imported := im_imported st + 1\<rparr>) s2
          else upd_import (\<lambda>st. st\<lparr>im_skipped := im_skipped st + 1\<rparr>) s2)"
      define mx' where "mx' = (if f_index item > mx then f_index item else mx)"
      have step: "import_loop env k (item # rest) mx s = import_loop env (k + 1) rest mx' s3"
        using False Returned by (simp add: s3_def s2_def mx'_def Let_def)
      obtain n where n: "trace (snd (snd (import_loop env (k + 1) rest mx' s3))) = trace s3 @ gets n"
        "im_done (import_st (snd (snd (import_loop env (k + 1) rest mx' s3)))) = im_done (import_st s3) + n"
        "LAST_CAPTURE_TS (snd (snd (import_loop env (k + 1) rest mx' s3))) = LAST_CAPTURE_TS s3"
        "clock (snd (snd (import_loop env (k + 1) rest mx' s3))) = clock s3"
        "import_conf (snd (snd (import_loop env (k + 1) rest mx' s3))) = import_conf s3"
        "interval_st (snd (snd (import_loop env (k + 1) rest mx' s3))) = interval_st s3"
        "im_running (import_st (snd (snd (import_loop env (k + 1) rest mx' s3)))) = im_running (import_st s3)"
        using Cons.IH [of "k + 1" mx' s3] by blast
      have s3: "trace s3 = trace s @ [Spawn, Reap]" "im_done (import_st s3) = im_done (import_st s) + 1"
        "LAST_CAPTURE_TS s3 = LAST_CAPTURE_TS s" "clock s3 = clock s" "import_conf s3 = import_conf s"
        "interval_st s3 = interval_st s" "im_running (import_st s3) = im_running (import_st s)"
        by (simp_all add: s3_def s2_def emit_def upd_import_def)
      have "trace s3 @ gets n = trace s @ gets (Suc n)"
        by (simp add: s3 gets_def)
      with n s3 show ?thesis unfolding step by (intro exI [of _ "Suc n"]) simp
    qed
  qed
qed

lemma import_body_shape:
  "\<exists>n. trace (snd (import_body env mode session s))
         = trace s @ [Acquire, Spawn, Reap, Release] @ gets n \<and>
       LAST_CAPTURE_TS (snd (import_body env mode session s)) = LAST_CAPTURE_TS s \<and>
       clock (snd (import_body env mode session s)) = clock s \<and>
       interval_st (snd (import_body env mode session s)) = interval_st s"
proof -
  define s1 where "s1 = emit [Acquire, Spawn, Reap, Release] s"
  have s1: "trace s1 = trace s @ [Acquire, Spawn, Reap, Release] @ gets 0"
    "LAST_CAPTURE_TS s1 = LAST_CAPTURE_TS s" "clock s1 = clock s" "interval_st s1 = interval_st s"
    by (simp_all add: s1_def emit_def gets_def)
  have early: "\<And>f. \<exists>n. trace (upd_import f s1) = trace s @ [Acquire, Spawn, Reap, Release] @ gets n \<and>
       LAST_CAPTURE_TS (upd_import f s1) = LAST_CAPTURE_TS s \<and>
       clock (upd_import f s1) = clock s \<and> interval_st (upd_import f s1) = interval_st s"
    using s1 by (intro exI [of _ 0]) (simp add: upd_import_def)
  show ?thesis
  proof (cases "list_files env")
    case (ProcError e)
    then have "snd (import_body env mode session s) = upd_import
         (\<lambda>st. st\<lparr>im_running := False, im_total := 0,
                       im_last_error := Some ''No files listed by gphoto2'',
                       im_finished_at := Some (clock s1)\<rparr>) s1"
      by (simp add: import_body_def list_camera_files_def s1_def Let_def)
    then show ?thesis using early by simp
  next
    case (Raised msg)
    then have "snd (import_body env mode session s) = crashed msg s1"
      by (simp add: import_body_def list_camera_files_def s1_def Let_def)
    then show ?thesis using early by (simp add: crashed_def)
  next
    case (Returned files)
    show ?thesis
    proof (cases "files = []")
      case True
      with Returned have "snd (import_body env mode session s) = upd_import
         (\<lambda>st. st\<lparr>im_running := False, im_total := 0,
                       im_last_error := Some ''No files listed by gphoto2'',
                       im_finished_at := Some (clock s1)\<rparr>) s1"
        by (simp add: import_body_def list_camera_files_def s1_def Let_def)
      then show ?thesis using early by simp
    next
      case False
      define sel where "sel = select_files mode (import_conf s) files"
      define s2 where "s2 = reset_counters (length sel) s1"
      have s2: "trace s2 = trace s @ [Acquire, Spawn, Reap, Release]"
        "LAST_CAPTURE_TS s2 = LAST_CAPTURE_TS s" "clock s2 = clock s"
        "interval_st s2 = interval_st s"
        by (simp_all add: s2_def s1_def emit_def upd_import_def reset_counters_def)
      have body: "import_body env mode session s =
         (if sel = [] then
            (False, upd_import (\<lambda>st. st\<lparr>im_running := False,
                             im_finished_at := Some (clock s2)\<rparr>) s2)
          else
            (case makedirs env of
               Some msg \<Rightarrow> (False, crashed msg s2)
             | None \<Rightarrow>
                 (case import_loop env 0 sel (import_conf s) s2 of
                    (Crashed msg, max_idx, s3) \<Rightarrow> (False, crashed msg s3)
                  | (Cancelled, max_idx, s3) \<Rightarrow> (True, s3)
                  | (Completed, max_idx, s3) \<Rightarrow>
                      (False, if max_idx > import_conf s
                              then save_import_conf env max_idx s3 else s3))))"
        using Returned False
        unfolding import_body_def list_camera_files_def s1_def s2_def sel_def Let_def
        by simp
      obtain ex m s3 where loop: "import_loop env 0 sel (import_conf s) s2 = (ex, m, s3)"
        by (cases "import_loop env 0 sel (import_conf s) s2") auto
      obtain n where n: "trace s3 = trace s2 @ gets n" "LAST_CAPTURE_TS s3 = LAST_CAPTURE_TS s2"
        "clock s3 = clock s2" "interval_st s3 = interval_st s2"
        using import_loop_shape [of env 0 sel "import_conf s" s2] loop by auto
      have s3: "\<exists>n. trace s3 = trace s @ [Acquire, Spawn, Reap, Release] @ gets n \<and>
       LAST_CAPTURE_TS s3 = LAST_CAPTURE_TS s \<and> clock s3 = clock s \<and> interval_st s3 = interval_st s"
        using n s2 by auto
      have s2': "\<exists>n. trace s2 = trace s @ [Acquire, Spawn, Reap, Release] @ gets n \<and>
       LAST_CAPTURE_TS s2 = LAST_CAPTURE_TS s \<and> clock s2 = clock s \<and> interval_st s2 = interval_st s"
        using s2 by (intro exI [of _ 0]) (simp add: gets_def)
      show ?thesis
        unfolding body using s3 s2' loop
        by (cases ex; cases "makedirs env")
           (simp_all add: crashed_def upd_import_def save_import_conf_def)
    qed
  qed
qed

lemma import_worker_shape:
  "\<exists>n. trace (import_worker env mode session s)
         = trace s @ [Acquire, Spawn, Reap, Release] @ gets n \<and>
       LAST_CAPTURE_TS (import_worker env mode session s) = LAST_CAPTURE_TS s \<and>
       clock (import_worker env mode session s) = clock s \<and>
       interval_st (import_worker env mode session s) = interval_st s"
  using import_body_shape [of env mode session s]
  by (cases "import_body env mode session s")
     (simp add: import_worker_def upd_import_def finish_def)

lemma sleeps_gets: "sleeps (gets n) = []"
  by (induction n) (simp_all add: gets_def)

lemma held_gets: "held h (gets n) = h"
  by (induction n) (simp_all add: gets_def)

lemma locked_sleeps_gets: "locked_sleeps h (gets n) = []"
  by (induction n) (simp_all add: gets_def)

lemma spawns_gets: "spawns (gets n) = n"
  by (induction n) (simp_all add: gets_def spawns_def)

subsection \<open>The transfer loop of the card sync\<close>

lemma retries_Suc: "Sleep sync_delay # locked_call @ retries n = retries (Suc n)"
  by (simp add: retries_def)

lemma preview_transfer_shape:
  "i < sync_attempts \<Longrightarrow>
   \<exists>n. n < sync_attempts - i \<and>
       trace (preview_transfer env target i s) = trace s @ locked_call @ retries n \<and>
       LAST_CAPTURE_TS (preview_transfer env target i s) = LAST_CAPTURE_TS s \<and>
       interval_st (preview_transfer env target i s) = interval_st s"
proof (induction env target i s rule: preview_transfer.induct)
  case (1 env target i s)
  define s1 where "s1 = emit [Acquire, Spawn, Reap, Release] s"
  have s1: "trace s1 = trace s @ locked_call @ retries 0" "LAST_CAPTURE_TS s1 = LAST_CAPTURE_TS s"
    "interval_st s1 = interval_st s"
    by (simp_all add: s1_def emit_def locked_call_def retries_def)
  have stop: "0 < sync_attempts - i" using "1.prems" by simp
  show ?case
  proof (cases "\<exists>e. fetch env i = ProcError e \<and> sync_transient e \<and> i < sync_attempts - 1")
    case False
    have "trace (preview_transfer env target i s) = trace s1 \<and>
          LAST_CAPTURE_TS (preview_transfer env target i s) = LAST_CAPTURE_TS s1 \<and>
          interval_st (preview_transfer env target i s) = interval_st s1"
    proof (cases "fetch env i")
      case (Returned out)
      then show ?thesis using "1.prems"
        by (simp add: preview_transfer.simps [of env target i s] Let_def s1_def)
    next
      case (Raised msg)
      then show ?thesis using "1.prems"
        by (simp add: preview_transfer.simps [of env target i s] Let_def s1_def)
    next
      case (ProcError e)
      with False have no: "\<not> (sync_transient e \<and> i < sync_attempts - 1)" by simp
      have "preview_transfer env target i s = s1"
        using ProcError "1.prems" no
        by (auto simp: preview_transfer.simps [of env target i s] Let_def s1_def)
      then show ?thesis by simp
    qed
    then show ?thesis using s1 stop by (intro exI [of _ 0]) auto
  next
    case True
    then obtain e where e: "fetch env i = ProcError e" "sync_transient e \<and> i < sync_attempts - 1"
      by blast
    define s2 where "s2 = time_sleep (sync_over env) sync_delay s1"
    have step: "preview_transfer env target i s = preview_transfer env target (i + 1) s2"
      using e "1.prems"
      by (simp add: preview_transfer.simps [of env target i s] s1_def s2_def Let_def)
    have lt: "i + 1 < sync_attempts" using e by linarith
    obtain n where n: "n < sync_attempts - (i + 1)"
      "trace (preview_transfer env target (i + 1) s2) = trace s2 @ locked_call @ retries n"
      "LAST_CAPTURE_TS (preview_transfer env target (i + 1) s2) = LAST_CAPTURE_TS s2"
      "interval_st (preview_transfer env target (i + 1) s2) = interval_st s2"
      using "1.IH" [OF "1.prems" s1_def e(1) e(2) lt [unfolded s2_def]] s2_def by blast
    have s2: "trace s2 = trace s @ locked_call @ [Sleep sync_delay]"
      "LAST_CAPTURE_TS s2 = LAST_CAPTURE_TS s" "interval_st s2 = interval_st s"
      by (simp_all add: s2_def s1_def time_sleep_def emit_def locked_call_def)
    have "trace s2 @ locked_call @ retries n = trace s @ locked_call @ retries (Suc n)"
      by (simp add: s2 retries_def)
    with n s2 show ?thesis unfolding step by (intro exI [of _ "Suc n"]) auto
  qed
qed

lemma preview_transfer_all_transient:
  "i < sync_attempts \<Longrightarrow>
   (\<And>j. i \<le> j \<Longrightarrow> j < sync_attempts \<Longrightarrow> \<exists>e. fetch env j = ProcError e \<and> sync_transient e) \<Longrightarrow>
   trace (preview_transfer env target i s) = trace s @ locked_call @ retries (sync_attempts - i - 1)"
proof (induction env target i s rule: preview_transfer.induct)
  case (1 env target i s)
  define s1 where "s1 = emit [Acquire, Spawn, Reap, Release] s"
  obtain e where e: "fetch env i = ProcError e" "sync_transient e"
    using "1.prems"(2) [of i] "1.prems"(1) by auto
  show ?case
  proof (cases "i < sync_attempts - 1")
    case False
    then have last: "sync_attempts - i - 1 = 0" by simp
    have "preview_transfer env target i s = s1"
      using e "1.prems"(1) False
      by (simp add: preview_transfer.simps [of env target i s] s1_def Let_def)
    then show ?thesis unfolding last
      by (simp add: s1_def emit_def locked_call_def retries_def)
  next
    case True
    define s2 where "s2 = time_sleep (sync_over env) sync_delay s1"
    have step: "preview_transfer env target i s = preview_transfer env target (i + 1) s2"
      using e True "1.prems"(1)
      by (simp add: preview_transfer.simps [of env target i s] s1_def s2_def Let_def)
    have lt: "i + 1 < sync_attempts" using True by simp
    have te: "sync_transient e \<and> i < sync_attempts - 1" using e True by simp
    have ih: "trace (preview_transfer env target (i + 1) s2)
        = trace s2 @ locked_call @ retries (sync_attempts - (i + 1) - 1)"
      using "1.IH" [OF "1.prems"(1) s1_def e(1) te lt] "1.prems"(2) s2_def by simp
    have s2: "trace s2 = trace s @ locked_call @ [Sleep sync_delay]"
      by (simp add: s2_def s1_def time_sleep_def emit_def locked_call_def)
    have "sync_attempts - i - 1 = Suc (sync_attempts - (i + 1) - 1)" using True by simp
    then show ?thesis unfolding step ih s2 by (simp add: retries_def)
  qed
qed

subsection \<open>Traces of the manual capture handler\<close>

lemma set_liveview_keys_trace:
  "\<exists>n. trace (snd (set_liveview_keys gp val ks s)) = trace s @ gets n"
proof (induction ks arbitrary: s)
  case Nil
  have "trace s = trace s @ gets 0" by (simp add: gets_def)
  then show ?case by (intro exI [of _ 0]) simp
next
  case (Cons k ks)
  define s1 where "s1 = emit [Spawn, Reap] s"
  obtain n where n: "trace (snd (set_liveview_keys gp val ks s1)) = trace s1 @ gets n"
    using Cons.IH by blast
  have one: "trace s1 = trace s @ gets 1" by (simp add: s1_def emit_def gets_def)
  have more: "trace s1 @ gets n = trace s @ gets (Suc n)"
    by (simp add: s1_def emit_def gets_def)
  show ?case
  proof (cases "gp (k @ ''='' @ val)")
    case (Returned out)
    then show ?thesis using one by (intro exI [of _ 1]) (simp add: s1_def Let_def)
  next
    case (Raised msg)
    then show ?thesis using one by (intro exI [of _ 1]) (simp add: s1_def Let_def)
  next
    case (ProcError e)
    then show ?thesis using n more by (intro exI [of _ "Suc n"]) (simp add: s1_def Let_def)
  qed
qed

lemma stop_hold_trace:
  "\<exists>tr. trace (stop_hold env s) = trace s @ tr \<and> sleeps tr = [] \<and>
        (\<forall>h. held h tr = h \<and> locked_sleeps h tr = [])"
proof (cases "liveview_proc s = Some Alive")
  case False
  then have "trace (stop_hold env s) = trace s @ []"
    by (auto simp: stop_hold_def liveview_proc_running_def split: option.splits proc.splits)
  then show ?thesis by (intro exI [of _ "[]"]) simp
next
  case True
  define s1 where "s1 = (emit [WaitProc 5] s)\<lparr>liveview_proc := None, liveview_running := False\<rparr>"
  obtain n where "trace (snd (set_liveview_keys (set_config env) ''0'' LIVEVIEW_KEYS s1))
      = trace s1 @ gets n"
    using set_liveview_keys_trace by blast
  with True have "trace (stop_hold env s) = trace s @ (WaitProc 5 # gets n)"
    by (simp add: stop_hold_def liveview_proc_running_def liveview_proc_stop_def set_liveview_def
          s1_def emit_def)
  then show ?thesis
    by (intro exI [of _ "WaitProc 5 # gets n"]) (simp add: sleeps_gets held_gets locked_sleeps_gets)
qed

lemma retry_trace_facts:
  "retry_trace tr \<Longrightarrow>
   set (sleeps tr) \<subseteq> {capture_delay} \<and>
   (\<forall>h. held h tr = h \<and> set (locked_sleeps h tr) \<subseteq> {capture_delay})"
  by (auto simp: retry_trace_def split: if_splits)

lemma capture_trace:
  "\<exists>mid. trace (snd (capture env s)) = trace (cooldown env (emit [Acquire] s)) @ mid @ [Release] \<and>
         set (sleeps mid) \<subseteq> {capture_delay} \<and>
         (\<forall>h. held h mid = h \<and> set (locked_sleeps h mid) \<subseteq> {capture_delay})"
proof -
  define s3 where "s3 = cooldown env (emit [Acquire] s)"
  obtain t1 where t1: "trace (stop_hold env s3) = trace s3 @ t1" "sleeps t1 = []"
    "\<And>h. held h t1 = h \<and> locked_sleeps h t1 = []"
    using stop_hold_trace [of env s3] by blast
  obtain r t2 d err where t2: "retry_trace t2"
    and eq: "\<And>s. capture_one env s =
        (r, (extend d t2 s)\<lparr>interval_st :=
               (case err of None \<Rightarrow> interval_st s
                | Some e \<Rightarrow> (interval_st s)\<lparr>iv_last_error := Some e\<rparr>)\<rparr>)"
    using capture_one_shape [of env] by blast
  have a: "snd (capture env s) = emit [Release] (snd (capture_one env (stop_hold env s3)))"
    by (simp add: capture_snd s3_def)
  have b: "trace (snd (capture_one env (stop_hold env s3))) = trace (stop_hold env s3) @ t2"
    by (simp add: eq extend_def)
  have "trace (snd (capture env s)) = trace s3 @ (t1 @ t2) @ [Release]"
    unfolding a by (simp add: emit_def b t1)
  moreover have "set (sleeps (t1 @ t2)) \<subseteq> {capture_delay}"
    using retry_trace_facts [OF t2] t1 by (simp add: sleeps_append)
  moreover have "\<forall>h. held h (t1 @ t2) = h \<and> set (locked_sleeps h (t1 @ t2)) \<subseteq> {capture_delay}"
    using retry_trace_facts [OF t2] t1 by (simp add: held_append locked_sleeps_append)
  ultimately show ?thesis unfolding s3_def by blast
qed

lemma cooldown_wait:
  "clock s - LAST_CAPTURE_TS s < MIN_CAPTURE_GAP \<Longrightarrow>
   trace (cooldown env (emit [Acquire] s))
     = trace s @ [Acquire, Sleep (MIN_CAPTURE_GAP - (clock s - LAST_CAPTURE_TS s))] \<and>
   LAST_CAPTURE_TS (cooldown env (emit [Acquire] s))
     = clock s + (MIN_CAPTURE_GAP - (clock s - LAST_CAPTURE_TS s)) + oversleep env"
  by (simp add: cooldown_def Let_def emit_def time_sleep_def)

lemma cooldown_pass:
  "\<not> clock s - LAST_CAPTURE_TS s < MIN_CAPTURE_GAP \<Longrightarrow>
   trace (cooldown env (emit [Acquire] s)) = trace s @ [Acquire] \<and>
   LAST_CAPTURE_TS (cooldown env (emit [Acquire] s)) = clock s"
  by (simp add: cooldown_def Let_def emit_def)

lemma capture_LAST:
  "LAST_CAPTURE_TS (snd (capture env s)) = LAST_CAPTURE_TS (cooldown env (emit [Acquire] s))"
  by (simp add: capture_snd emit_def capture_one_LAST stop_hold_frame)

subsection \<open>The capture cooldown\<close>

lemma interval_worker_LAST:
  "LAST_CAPTURE_TS (interval_worker env interval_s count s) = LAST_CAPTURE_TS s"
  by (simp add: interval_worker_def Let_def interval_loop_LAST)

lemma interval_worker_sleeps:
  "set (sleeps (trace (interval_worker env interval_s count s)))
     \<subseteq> set (sleeps (trace s)) \<union> {capture_delay, interval_s}"
  using interval_loop_sleeps [of env interval_s 0
     "s\<lparr>interval_st := \<lparr>iv_running = True, iv_interval = interval_s, iv_remaining = count,
                    iv_total = count, iv_last_error = None\<rparr>\<rparr>"]
  by (simp add: interval_worker_loop)

lemma import_worker_sleeps:
  "sleeps (trace (import_worker env mode session s)) = sleeps (trace s)"
  using import_worker_shape [of env mode session s]
  by (auto simp: sleeps_append sleeps_gets)

lemma import_worker_LAST:
  "LAST_CAPTURE_TS (import_worker env mode session s) = LAST_CAPTURE_TS s"
  using import_worker_shape [of env mode session s] by auto

text \<open>
  C9. The cooldown gap is 1.2 s. After a manual capture the recorded timestamp is at
  least 1.2 s later than the one recorded before it (a sleep lasts at least as long as
  asked). When less than 1.2 s have passed since the last timestamp, the handler's first
  action under the lock is to sleep for the remaining delta, and the timestamp is
  recorded after that sleep; otherwise it records the time at once and its only sleeps
  are retry delays. The intervalometer and the import worker neither read nor write the
  timestamp: they leave it as it is, the intervalometer sleeps only for the retry delay
  and its own interval, and the import worker does not sleep.
\<close>

theorem C9_cooldown:
  "MIN_CAPTURE_GAP = 1.2 \<and>
   (0 \<le> oversleep env \<longrightarrow>
      LAST_CAPTURE_TS s + MIN_CAPTURE_GAP \<le> LAST_CAPTURE_TS (snd (capture env s))) \<and>
   (clock s - LAST_CAPTURE_TS s < MIN_CAPTURE_GAP \<longrightarrow>
      (\<exists>rest. trace (snd (capture env s)) =
                trace s @ Acquire # Sleep (MIN_CAPTURE_GAP - (clock s - LAST_CAPTURE_TS s)) # rest \<and>
              set (sleeps rest) \<subseteq> {capture_delay}) \<and>
      LAST_CAPTURE_TS (snd (capture env s)) =
        clock s + (MIN_CAPTURE_GAP - (clock s - LAST_CAPTURE_TS s)) + oversleep env) \<and>
   (MIN_CAPTURE_GAP \<le> clock s - LAST_CAPTURE_TS s \<longrightarrow>
      (\<exists>rest. trace (snd (capture env s)) = trace s @ Acquire # rest \<and>
              set (sleeps rest) \<subseteq> {capture_delay}) \<and>
      LAST_CAPTURE_TS (snd (capture env s)) = clock s) \<and>
   LAST_CAPTURE_TS (interval_worker ienv interval_s count s) = LAST_CAPTURE_TS s \<and>
   set (sleeps (trace (interval_worker ienv interval_s count s)))
     \<subseteq> set (sleeps (trace s)) \<union> {capture_delay, interval_s} \<and>
   LAST_CAPTURE_TS (import_worker menv mode session s) = LAST_CAPTURE_TS s \<and>
   sleeps (trace (import_worker menv mode session s)) = sleeps (trace s)"
proof -
  obtain mid where mid:
    "trace (snd (capture env s)) = trace (cooldown env (emit [Acquire] s)) @ mid @ [Release]"
    "set (sleeps mid) \<subseteq> {capture_delay}"
    using capture_trace [of env s] by blast
  have rest: "set (sleeps (mid @ [Release])) \<subseteq> {capture_delay}"
    using mid(2) by (simp add: sleeps_append)
  have gap: "MIN_CAPTURE_GAP = 1.2" by (simp add: MIN_CAPTURE_GAP_def)
  have wait: "clock s - LAST_CAPTURE_TS s < MIN_CAPTURE_GAP \<longrightarrow>
      (\<exists>rest. trace (snd (capture env s)) =
                trace s @ Acquire # Sleep (MIN_CAPTURE_GAP - (clock s - LAST_CAPTURE_TS s)) # rest \<and>
              set (sleeps rest) \<subseteq> {capture_delay}) \<and>
      LAST_CAPTURE_TS (snd (capture env s)) =
        clock s + (MIN_CAPTURE_GAP - (clock s - LAST_CAPTURE_TS s)) + oversleep env"
  proof
    assume lt: "clock s - LAST_CAPTURE_TS s < MIN_CAPTURE_GAP"
    have "trace (snd (capture env s)) =
            trace s @ Acquire # Sleep (MIN_CAPTURE_GAP - (clock s - LAST_CAPTURE_TS s))
              # (mid @ [Release])"
      using cooldown_wait [OF lt, of env] mid(1) by simp
    with rest have "\<exists>rest. trace (snd (capture env s)) =
                trace s @ Acquire # Sleep (MIN_CAPTURE_GAP - (clock s - LAST_CAPTURE_TS s)) # rest \<and>
              set (sleeps rest) \<subseteq> {capture_delay}" by blast
    moreover have "LAST_CAPTURE_TS (snd (capture env s)) =
        clock s + (MIN_CAPTURE_GAP - (clock s - LAST_CAPTURE_TS s)) + oversleep env"
      using cooldown_wait [OF lt, of env] by (simp add: capture_LAST)
    ultimately show "(\<exists>rest. trace (snd (capture env s)) =
                trace s @ Acquire # Sleep (MIN_CAPTURE_GAP - (clock s - LAST_CAPTURE_TS s)) # rest \<and>
              set (sleeps rest) \<subseteq> {capture_delay}) \<and>
      LAST_CAPTURE_TS (snd (capture env s)) =
        clock s + (MIN_CAPTURE_GAP - (clock s - LAST_CAPTURE_TS s)) + oversleep env" by blast
  qed
  have pass: "MIN_CAPTURE_GAP \<le> clock s - LAST_CAPTURE_TS s \<longrightarrow>
      (\<exists>rest. trace (snd (capture env s)) = trace s @ Acquire # rest \<and>
              set (sleeps rest) \<subseteq> {capture_delay}) \<and>
      LAST_CAPTURE_TS (snd (capture env s)) = clock s"
  proof
    assume "MIN_CAPTURE_GAP \<le> clock s - LAST_CAPTURE_TS s"
    then have ge: "\<not> clock s - LAST_CAPTURE_TS s < MIN_CAPTURE_GAP" by simp
    have "trace (snd (capture env s)) = trace s @ Acquire # (mid @ [Release])"
      using cooldown_pass [OF ge, of env] mid(1) by simp
    with rest have "\<exists>rest. trace (snd (capture env s)) = trace s @ Acquire # rest \<and>
              set (sleeps rest) \<subseteq> {capture_delay}" by blast
    moreover have "LAST_CAPTURE_TS (snd (capture env s)) = clock s"
      using cooldown_pass [OF ge, of env] by (simp add: capture_LAST)
    ultimately show "(\<exists>rest. trace (snd (capture env s)) = trace s @ Acquire # rest \<and>
              set (sleeps rest) \<subseteq> {capture_delay}) \<and>
      LAST_CAPTURE_TS (snd (capture env s)) = clock s" by blast
  qed
  have late: "0 \<le> oversleep env \<longrightarrow>
      LAST_CAPTURE_TS s + MIN_CAPTURE_GAP \<le> LAST_CAPTURE_TS (snd (capture env s))"
  proof
    assume over: "0 \<le> oversleep env"
    show "LAST_CAPTURE_TS s + MIN_CAPTURE_GAP \<le> LAST_CAPTURE_TS (snd (capture env s))"
    proof (cases "clock s - LAST_CAPTURE_TS s < MIN_CAPTURE_GAP")
      case True
      with wait over show ?thesis by simp
    next
      case False
      then have "MIN_CAPTURE_GAP \<le> clock s - LAST_CAPTURE_TS s" by simp
      with pass show ?thesis by simp
    qed
  qed
  show ?thesis
    using gap late wait pass interval_worker_LAST [of ienv interval_s count s]
      interval_worker_sleeps [of ienv interval_s count s]
      import_worker_LAST [of menv mode session s] import_worker_sleeps [of menv mode session s]
    by blast
qed

theorem C9_cooldown_witness:
  "0 \<le> oversleep good_shot \<and>
   clock second_press - LAST_CAPTURE_TS second_press = 0.1 \<and>
   clock second_press - LAST_CAPTURE_TS second_press < MIN_CAPTURE_GAP \<and>
   LAST_CAPTURE_TS (snd (capture good_shot second_press)) = 101.2 \<and>
   LAST_CAPTURE_TS second_press + MIN_CAPTURE_GAP \<le>
     LAST_CAPTURE_TS (snd (capture good_shot second_press))"
proof -
  have o: "0 \<le> oversleep good_shot" "oversleep good_shot = 0" by (simp_all add: good_shot_def)
  have d: "clock second_press - LAST_CAPTURE_TS second_press = 0.1"
    by (simp add: second_press_def init_state_def)
  have c: "clock second_press = 100.1" "LAST_CAPTURE_TS second_press = 100"
    by (simp_all add: second_press_def init_state_def)
  have lt: "clock second_press - LAST_CAPTURE_TS second_press < MIN_CAPTURE_GAP"
    unfolding d by (simp add: MIN_CAPTURE_GAP_def)
  note T = C9_cooldown [of good_shot second_press]
  from T o(1) have a: "LAST_CAPTURE_TS second_press + MIN_CAPTURE_GAP \<le>
     LAST_CAPTURE_TS (snd (capture good_shot second_press))" by blast
  from T lt have "LAST_CAPTURE_TS (snd (capture good_shot second_press)) =
        clock second_press + (MIN_CAPTURE_GAP - (clock second_press - LAST_CAPTURE_TS second_press))
          + oversleep good_shot" by blast
  then have b: "LAST_CAPTURE_TS (snd (capture good_shot second_press)) = 101.2"
    unfolding c o(2) MIN_CAPTURE_GAP_def by simp
  from o d lt a b show ?thesis by simp
qed

subsection \<open>Sleeps while the device lock is held\<close>

lemma capture_locked_sleeps:
  assumes free: "\<not> held False (trace s)"
  shows "set (locked_sleeps False (trace (snd (capture env s))))
           \<subseteq> set (locked_sleeps False (trace s))
             \<union> {capture_delay, MIN_CAPTURE_GAP - (clock s - LAST_CAPTURE_TS s)}"
proof -
  obtain mid where mid:
    "trace (snd (capture env s)) = trace (cooldown env (emit [Acquire] s)) @ mid @ [Release]"
    "\<And>h. held h mid = h \<and> set (locked_sleeps h mid) \<subseteq> {capture_delay}"
    using capture_trace [of env s] by blast
  have m: "set (locked_sleeps True (mid @ [Release])) \<subseteq> {capture_delay}"
    using mid(2) [of True] by (simp add: locked_sleeps_append)
  show ?thesis
  proof (cases "clock s - LAST_CAPTURE_TS s < MIN_CAPTURE_GAP")
    case True
    have "trace (snd (capture env s)) =
            trace s @ [Acquire, Sleep (MIN_CAPTURE_GAP - (clock s - LAST_CAPTURE_TS s))]
              @ (mid @ [Release])"
      using cooldown_wait [OF True, of env] mid(1) by simp
    then have "locked_sleeps False (trace (snd (capture env s))) =
        locked_sleeps False (trace s) @ (MIN_CAPTURE_GAP - (clock s - LAST_CAPTURE_TS s))
          # locked_sleeps True (mid @ [Release])"
      using free by (simp add: locked_sleeps_append held_append del: append_assoc)
    with m show ?thesis by auto
  next
    case False
    have "trace (snd (capture env s)) = trace s @ [Acquire] @ (mid @ [Release])"
      using cooldown_pass [OF False, of env] mid(1) by simp
    then have "locked_sleeps False (trace (snd (capture env s))) =
        locked_sleeps False (trace s) @ locked_sleeps True (mid @ [Release])"
      using free by (simp add: locked_sleeps_append held_append del: append_assoc)
    with m show ?thesis by auto
  qed
qed

lemma interval_worker_locked:
  assumes free: "\<not> held False (trace s)"
  shows "set (locked_sleeps False (trace (interval_worker env interval_s count s)))
           \<subseteq> set (locked_sleeps False (trace s)) \<union> {capture_delay}"
  using interval_loop_locked [of
     "s\<lparr>interval_st := \<lparr>iv_running = True, iv_interval = interval_s, iv_remaining = count,
                    iv_total = count, iv_last_error = None\<rparr>\<rparr>" env interval_s 0] free
  by (simp add: interval_worker_loop)

lemma locked_sleeps_retries: "locked_sleeps False (retries n) = [] \<and> \<not> held False (retries n)"
  by (induction n) (simp_all add: retries_def locked_call_def locked_sleeps_append held_append)

lemma preview_transfer_locked:
  assumes free: "\<not> held False (trace s)"
  shows "locked_sleeps False (trace (preview_transfer env target 0 s))
           = locked_sleeps False (trace s)"
proof -
  obtain n where "trace (preview_transfer env target 0 s) = trace s @ locked_call @ retries n"
    using preview_transfer_shape [of 0 env target s] by (auto simp: sync_attempts_def)
  then show ?thesis using free
    by (simp add: locked_sleeps_append held_append locked_sleeps_retries locked_call_def)
qed

lemma import_worker_locked:
  assumes free: "\<not> held False (trace s)"
  shows "locked_sleeps False (trace (import_worker env mode session s))
           = locked_sleeps False (trace s)"
  using import_worker_shape [of env mode session s] free
  by (auto simp: locked_sleeps_append held_append locked_sleeps_gets)

text \<open>
  C8 (as amended). The retry delay of a capture is 0.6 s, that of the card-sync transfer
  0.8 s, the cooldown gap 1.2 s. For a thread that does not hold \<^verbatim>\<open>cam_lock\<close> when it
  starts: every sleep a manual capture executes while holding the lock is the retry delay
  of the capture primitive or the cooldown sleep, which lasts 1.2 s minus the time since
  the last timestamp (at most 1.2 s when the clock is not behind that timestamp); every
  sleep the intervalometer executes while holding the lock is the retry delay of the
  capture primitive; the card-sync transfer and the import worker execute no sleep while
  holding the lock.
\<close>

theorem C8_sleeps_under_lock:
  assumes free: "\<not> held False (trace s)"
  shows "capture_delay = 0.6 \<and> sync_delay = 0.8 \<and> MIN_CAPTURE_GAP = 1.2 \<and>
    set (locked_sleeps False (trace (snd (capture env s))))
      \<subseteq> set (locked_sleeps False (trace s))
        \<union> {capture_delay, MIN_CAPTURE_GAP - (clock s - LAST_CAPTURE_TS s)} \<and>
    (LAST_CAPTURE_TS s \<le> clock s \<longrightarrow>
       (\<forall>d \<in> set (locked_sleeps False (trace (snd (capture env s)))).
          d \<in> set (locked_sleeps False (trace s)) \<or> d \<le> MIN_CAPTURE_GAP)) \<and>
    set (locked_sleeps False (trace (interval_worker ienv interval_s count s)))
      \<subseteq> set (locked_sleeps False (trace s)) \<union> {capture_delay} \<and>
    locked_sleeps False (trace (preview_transfer senv target 0 s))
      = locked_sleeps False (trace s) \<and>
    locked_sleeps False (trace (import_worker menv mode session s))
      = locked_sleeps False (trace s)"
proof -
  have vals: "capture_delay = 0.6" "sync_delay = 0.8" "MIN_CAPTURE_GAP = 1.2"
    by (simp_all add: capture_delay_def sync_delay_def MIN_CAPTURE_GAP_def)
  note cap = capture_locked_sleeps [OF free, of env]
  have bound: "LAST_CAPTURE_TS s \<le> clock s \<longrightarrow>
       (\<forall>d \<in> set (locked_sleeps False (trace (snd (capture env s)))).
          d \<in> set (locked_sleeps False (trace s)) \<or> d \<le> MIN_CAPTURE_GAP)"
  proof (intro impI ballI)
    fix d
    assume le: "LAST_CAPTURE_TS s \<le> clock s"
      and d: "d \<in> set (locked_sleeps False (trace (snd (capture env s))))"
    from d cap consider "d \<in> set (locked_sleeps False (trace s))" | "d = capture_delay"
      | "d = MIN_CAPTURE_GAP - (clock s - LAST_CAPTURE_TS s)" by blast
    then show "d \<in> set (locked_sleeps False (trace s)) \<or> d \<le> MIN_CAPTURE_GAP"
    proof cases
      case 1 then show ?thesis by simp
    next
      case 2 then show ?thesis by (simp add: vals)
    next
      case 3 with le show ?thesis by simp
    qed
  qed
  show ?thesis
    using vals cap bound interval_worker_locked [OF free, of ienv interval_s count]
      preview_transfer_locked [OF free, of senv target] import_worker_locked [OF free, of menv mode session]
    by blast
qed

theorem C8_sleeps_under_lock_witness:
  "\<not> held False (trace second_press) \<and>
   LAST_CAPTURE_TS second_press \<le> clock second_press \<and>
   locked_sleeps False (trace (snd (capture good_shot second_press))) = [1.1] \<and>
   (1.1::real) \<le> MIN_CAPTURE_GAP"
proof -
  have free: "\<not> held False (trace second_press)"
    by (simp add: second_press_def init_state_def)
  have le: "LAST_CAPTURE_TS second_press \<le> clock second_press"
    by (simp add: second_press_def init_state_def)
  have none: "locked_sleeps False (trace second_press) = []"
    by (simp add: second_press_def init_state_def)
  have ev: "locked_sleeps False (trace (snd (capture good_shot second_press))) = [1.1]"
    by (simp add: capture_def cooldown_def stop_hold_def liveview_proc_running_def capture_one_def
      capture_retry_first good_shot_def second_press_def init_state_def emit_def time_sleep_def
      Let_def MIN_CAPTURE_GAP_def)
  from C8_sleeps_under_lock [OF free, of good_shot] le
  have "\<forall>d \<in> set (locked_sleeps False (trace (snd (capture good_shot second_press)))).
          d \<in> set (locked_sleeps False (trace second_press)) \<or> d \<le> MIN_CAPTURE_GAP"
    by blast
  then have "(1.1::real) \<le> MIN_CAPTURE_GAP" unfolding ev none by simp
  with free le ev show ?thesis by simp
qed

text \<open>
  The claim as stated bounds every sleep under the lock by the retry delay; the cooldown
  sleep of a manual capture served 0.1 s after the previous timestamp lasts 1.1 s, under
  the lock.
\<close>

theorem C8_cooldown_sleep_counterexample:
  "locked_sleeps False (trace (snd (capture good_shot second_press))) = [1.1] \<and>
   capture_delay < 1.1 \<and> sync_delay < 1.1"
  by (simp add: capture_def cooldown_def stop_hold_def liveview_proc_running_def capture_one_def
      capture_retry_first good_shot_def second_press_def init_state_def emit_def time_sleep_def
      Let_def MIN_CAPTURE_GAP_def capture_delay_def sync_delay_def)

subsection \<open>The import loop: cancellation, completion and the high-water mark\<close>

lemma import_body_run:
  assumes lf: "list_files env = Returned files"
    and sel: "select_files mode (import_conf s) files \<noteq> []"
    and mk: "makedirs env = None"
  shows "import_body env mode session s =
     (case import_loop env 0 (select_files mode (import_conf s) files) (import_conf s)
             (reset_counters (length (select_files mode (import_conf s) files))
                (emit [Acquire, Spawn, Reap, Release] s)) of
        (Crashed msg, max_idx, s3) \<Rightarrow> (False, crashed msg s3)
      | (Cancelled, max_idx, s3) \<Rightarrow> (True, s3)
      | (Completed, max_idx, s3) \<Rightarrow>
          (False, if max_idx > import_conf s then save_import_conf env max_idx s3 else s3))"
proof -
  have "files \<noteq> []" using sel by (auto simp: select_files_def)
  then show ?thesis
    using lf sel mk
    unfolding import_body_def list_camera_files_def Let_def by simp
qed

lemma import_loop_step:
  assumes "\<not> cancel_set env k" "im_running (import_st s)" "\<not> is_raised (get_file env k)"
  shows "\<exists>mx' s'. import_loop env k (item # rest) mx s = import_loop env (k + 1) rest mx' s' \<and>
           mx' = (if is_returned (get_file env k) then max mx (f_index item) else mx) \<and>
           im_running (import_st s') \<and> im_done (import_st s') = im_done (import_st s) + 1 \<and>
           import_conf s' = import_conf s"
proof (cases "get_file env k")
  case (Raised msg)
  with assms show ?thesis by (simp add: is_raised_def)
next
  case (ProcError e)
  define s2 where "s2 = emit [Spawn, Reap]
        (upd_import (\<lambda>st. st\<lparr>im_current := Some (f_name item)\<rparr>) s)"
  define s3 where "s3 = upd_import (\<lambda>st. st\<lparr>im_done := im_done st + 1\<rparr>)
                     (upd_import (\<lambda>st. st\<lparr>im_errors := im_errors st + 1,
                                            im_last_error := Some e\<rparr>) s2)"
  have "import_loop env k (item # rest) mx s = import_loop env (k + 1) rest mx s3"
    using assms ProcError by (simp add: s3_def s2_def Let_def)
  moreover have "im_running (import_st s3)" "im_done (import_st s3) = im_done (import_st s) + 1"
    "import_conf s3 = import_conf s"
    using assms by (simp_all add: s3_def s2_def upd_import_def emit_def)
  ultimately show ?thesis using ProcError
    by (intro exI [of _ mx] exI [of _ s3]) (simp add: is_returned_def)
next
  case (Returned out)
  define s2 where "s2 = emit [Spawn, Reap]
        (upd_import (\<lambda>st. st\<lparr>im_current := Some (f_name item)\<rparr>) s)"
  define s3 where "s3 = upd_import (\<lambda>st. st\<lparr>im_done := im_done st + 1\<rparr>)
         (if dest_exists env k \<and> \<not> (contains ''File exists'' out \<or> contains ''already exists'' out)
          then upd_import (\<lambda>st. st\<lparr>im_imported := im_imported st + 1\<rparr>) s2
          else upd_import (\<lambda>st. st\<lparr>im_skipped := im_skipped st + 1\<rparr>) s2)"
  define mx' where "mx' = (if f_index item > mx then f_index item else mx)"
  have "import_loop env k (item # rest) mx s = import_loop env (k + 1) rest mx' s3"
    using assms Returned by (simp add: s3_def s2_def mx'_def Let_def)
  moreover have "im_running (import_st s3)" "im_done (import_st s3) = im_done (import_st s) + 1"
    "import_conf s3 = import_conf s"
    using assms by (simp_all add: s3_def s2_def upd_import_def emit_def)
  moreover have "mx' = max mx (f_index item)" by (simp add: mx'_def max_def)
  ultimately show ?thesis using Returned
    by (intro exI [of _ mx'] exI [of _ s3]) (simp add: is_returned_def)
qed


lemma import_loop_completed:
  "import_loop env k sel mx s = (Completed, m, s') \<Longrightarrow>
   m = foldl max mx (transferred env k sel) \<and> import_conf s' = import_conf s"
proof (induction sel arbitrary: k mx s)
  case Nil
  then show ?case by simp
next
  case (Cons item rest)
  from Cons.prems have go: "\<not> cancel_set env k" "im_running (import_st s)"
    by (auto split: if_splits)
  from Cons.prems go have nr: "\<not> is_raised (get_file env k)"
    by (auto simp: is_raised_def Let_def split: outcome.splits)
  obtain mx' s1 where step: "import_loop env k (item # rest) mx s
           = import_loop env (k + 1) rest mx' s1"
      and mx': "mx' = (if is_returned (get_file env k) then max mx (f_index item) else mx)"
      and s1: "import_conf s1 = import_conf s"
    using import_loop_step [OF go nr, of item rest mx] by blast
  from Cons.prems step have "import_loop env (k + 1) rest mx' s1 = (Completed, m, s')" by simp
  from Cons.IH [OF this] mx' s1 show ?case by simp
qed

lemma foldl_max_insert:
  fixes a :: int
  shows "foldl max a xs = Max (insert a (set xs))"
proof (induction xs arbitrary: a)
  case Nil
  then show ?case by simp
next
  case (Cons x xs)
  have "Max (insert (max a x) (set xs)) = Max (insert a (insert x (set xs)))"
  proof (cases "set xs = {}")
    case True
    then show ?thesis by simp
  next
    case False
    then show ?thesis by (simp add: max.assoc)
  qed
  with Cons.IH [of "max a x"] show ?case by simp
qed

lemma foldl_max_Max:
  fixes a :: int
  assumes "a < foldl max a xs"
  shows "xs \<noteq> [] \<and> foldl max a xs = Max (set xs)"
proof -
  from assms have gt: "a < Max (insert a (set xs))" by (simp add: foldl_max_insert)
  then have ne: "xs \<noteq> []" by auto
  then have "Max (insert a (set xs)) = max a (Max (set xs))" by simp
  with gt ne show ?thesis by (simp add: foldl_max_insert max_def split: if_splits)
qed

lemma import_worker_finish:
  "import_worker env mode session s =
     finish (fst (import_body env mode session s)) (snd (import_body env mode session s))"
  by (simp add: import_worker_def split: prod.splits)

lemma finish_frame:
  "import_conf (finish c s) = import_conf s \<and> trace (finish c s) = trace s \<and>
   im_done (import_st (finish c s)) = im_done (import_st s) \<and>
   im_errors (import_st (finish c s)) = im_errors (import_st s) \<and>
   \<not> im_running (import_st (finish c s))"
  by (simp add: finish_def upd_import_def)

lemma reset_counters_frame:
  "import_conf (reset_counters n s) = import_conf s \<and> trace (reset_counters n s) = trace s \<and>
   im_done (import_st (reset_counters n s)) = 0 \<and>
   im_running (import_st (reset_counters n s)) = im_running (import_st s)"
  by (simp add: reset_counters_def upd_import_def)

lemma import_body_conf_changes:
  assumes lf: "list_files env = Returned files"
    and ch: "import_conf (snd (import_body env mode session s)) \<noteq> import_conf s"
  shows "select_files mode (import_conf s) files \<noteq> [] \<and> makedirs env = None"
proof (rule ccontr)
  assume "\<not> (select_files mode (import_conf s) files \<noteq> [] \<and> makedirs env = None)"
  then consider "files = []" | "files \<noteq> []" "select_files mode (import_conf s) files = []"
    | msg where "files \<noteq> []" "select_files mode (import_conf s) files \<noteq> []" "makedirs env = Some msg"
    by (cases "makedirs env") auto
  then have "import_conf (snd (import_body env mode session s)) = import_conf s"
  proof cases
    case 1
    with lf show ?thesis
      unfolding import_body_def list_camera_files_def Let_def
      by (simp add: upd_import_def emit_def)
  next
    case 2
    with lf show ?thesis
      unfolding import_body_def list_camera_files_def Let_def
      by (simp add: upd_import_def emit_def reset_counters_def)
  next
    case 3
    with lf show ?thesis
      unfolding import_body_def list_camera_files_def Let_def
      by (simp add: upd_import_def emit_def reset_counters_def crashed_def)
  qed
  with ch show False by simp
qed

lemma import_worker_advanced:
  assumes lf: "list_files env = Returned files"
    and ch: "import_conf (import_worker env mode session s) \<noteq> import_conf s"
  shows "\<exists>m s3. import_loop env 0 (select_files mode (import_conf s) files) (import_conf s)
             (reset_counters (length (select_files mode (import_conf s) files))
                (emit [Acquire, Spawn, Reap, Release] s)) = (Completed, m, s3) \<and>
           import_conf s < m \<and> import_conf (import_worker env mode session s) = m"
proof -
  let ?sel = "select_files mode (import_conf s) files"
  let ?s2 = "reset_counters (length ?sel) (emit [Acquire, Spawn, Reap, Release] s)"
  from ch have ch': "import_conf (snd (import_body env mode session s)) \<noteq> import_conf s"
    by (simp add: import_worker_finish finish_frame)
  from import_body_conf_changes [OF lf ch'] have sel: "?sel \<noteq> []" and mk: "makedirs env = None"
    by simp_all
  note body = import_body_run [OF lf sel mk, of session]
  obtain ex m s3 where loop: "import_loop env 0 ?sel (import_conf s) ?s2 = (ex, m, s3)"
    by (cases "import_loop env 0 ?sel (import_conf s) ?s2") auto
  have s3: "import_conf s3 = import_conf s"
    using import_loop_shape [of env 0 ?sel "import_conf s" ?s2] loop
    by (auto simp: reset_counters_frame emit_def)
  show ?thesis
  proof (cases ex)
    case Cancelled
    with ch' body loop s3 show ?thesis by simp
  next
    case (Crashed msg)
    with ch' body loop s3 show ?thesis by (simp add: crashed_def upd_import_def)
  next
    case Completed
    with ch' body loop s3 have "import_conf s < m" "save_ok env"
      by (auto simp: save_import_conf_def split: if_splits)
    with Completed body loop show ?thesis
      by (simp add: import_worker_finish finish_frame save_import_conf_def)
  qed
qed

lemma transferred_all:
  "(\<And>j. j < length sel \<Longrightarrow> is_returned (get_file env (k + j))) \<Longrightarrow>
   transferred env k sel = map f_index sel"
proof (induction sel arbitrary: k)
  case Nil
  then show ?case by simp
next
  case (Cons f fs)
  from Cons.prems [of 0] have "is_returned (get_file env k)" by simp
  moreover have "transferred env (k + 1) fs = map f_index fs"
  proof (rule Cons.IH)
    fix j assume "j < length fs"
    then show "is_returned (get_file env (k + 1 + j))"
      using Cons.prems [of "Suc j"] by simp
  qed
  ultimately show ?case by simp
qed

lemma import_worker_run_trace:
  assumes lf: "list_files env = Returned files"
    and sel: "select_files mode (import_conf s) files \<noteq> []"
    and mk: "makedirs env = None"
  shows "trace (import_worker env mode session s) =
           trace s @ [Acquire, Spawn, Reap, Release]
             @ gets (im_done (import_st (import_worker env mode session s)))"
proof -
  let ?sel = "select_files mode (import_conf s) files"
  let ?s2 = "reset_counters (length ?sel) (emit [Acquire, Spawn, Reap, Release] s)"
  note body = import_body_run [OF lf sel mk, of session]
  obtain ex m s3 where loop: "import_loop env 0 ?sel (import_conf s) ?s2 = (ex, m, s3)"
    by (cases "import_loop env 0 ?sel (import_conf s) ?s2") auto
  obtain n where n: "trace s3 = trace ?s2 @ gets n" "im_done (import_st s3) = im_done (import_st ?s2) + n"
    using import_loop_shape [of env 0 ?sel "import_conf s" ?s2] loop by auto
  have s3: "trace s3 = trace s @ [Acquire, Spawn, Reap, Release] @ gets (im_done (import_st s3))"
    using n by (simp add: reset_counters_frame emit_def)
  show ?thesis
    using body loop s3
    by (cases ex)
       (simp_all add: import_worker_finish finish_frame crashed_def upd_import_def
          save_import_conf_def)
qed

lemmas import_eval =
  import_worker_def import_body_def list_camera_files_def select_files_def reset_counters_def
  upd_import_def emit_def save_import_conf_def crashed_def finish_def Let_def
  import_start_def init_state_def mark5_def card_listing_def img_def truthy_def



text \<open>
  C5 (as amended). In New mode the job selects exactly the listed files whose index is
  greater than the persisted mark, in listing order (mark 5 with the indices 3, 6, 7, 9
  selects 6, 7, 9); in any other mode it selects every listed file. When a run has
  changed the persisted mark, the mark has grown and equals the greatest index among the
  files whose transfer succeeded; when every transfer succeeded, that is the greatest
  selected index.
\<close>

theorem C5_selection_and_mark:
  "select_files ''new'' M files = filter (\<lambda>f. M < f_index f) files \<and>
   (mode \<noteq> ''new'' \<longrightarrow> select_files mode M files = files) \<and>
   map f_index (select_files ''new'' 5 card_listing) = [6, 7, 9] \<and>
   (list_files env = Returned files \<and>
    import_conf (import_worker env mode session s) \<noteq> import_conf s \<longrightarrow>
      import_conf s < import_conf (import_worker env mode session s) \<and>
      import_conf (import_worker env mode session s)
        = Max (set (transferred env 0 (select_files mode (import_conf s) files))) \<and>
      ((\<forall>j < length (select_files mode (import_conf s) files). is_returned (get_file env j)) \<longrightarrow>
         import_conf (import_worker env mode session s)
           = Max (f_index ` set (select_files mode (import_conf s) files))))"
proof (intro conjI impI)
  show "select_files ''new'' M files = filter (\<lambda>f. M < f_index f) files"
    by (simp add: select_files_def)
  show "select_files mode M files = files" if "mode \<noteq> ''new''"
    using that by (simp add: select_files_def)
  show "map f_index (select_files ''new'' 5 card_listing) = [6, 7, 9]"
    by (simp add: select_files_def card_listing_def img_def)
next
  let ?sel = "select_files mode (import_conf s) files"
  let ?w = "import_worker env mode session s"
  assume h: "list_files env = Returned files \<and> import_conf ?w \<noteq> import_conf s"
  then obtain m s3 where loop: "import_loop env 0 ?sel (import_conf s)
      (reset_counters (length ?sel) (emit [Acquire, Spawn, Reap, Release] s)) = (Completed, m, s3)"
    and gt: "import_conf s < m" and eq: "import_conf ?w = m"
    using import_worker_advanced [of env files mode session s] by blast
  from import_loop_completed [OF loop] have m: "m = foldl max (import_conf s) (transferred env 0 ?sel)"
    by simp
  from gt m foldl_max_Max [of "import_conf s" "transferred env 0 ?sel"]
  have mx: "m = Max (set (transferred env 0 ?sel))" by simp
  from gt eq show "import_conf s < import_conf ?w" by simp
  from mx eq show "import_conf ?w = Max (set (transferred env 0 ?sel))" by simp
  show "import_conf ?w = Max (f_index ` set ?sel)"
    if all: "\<forall>j < length ?sel. is_returned (get_file env j)"
  proof -
    have "transferred env 0 ?sel = map f_index ?sel"
      using all by (intro transferred_all) simp
    with mx eq show ?thesis by simp
  qed
qed

theorem C5_selection_and_mark_witness:
  "list_files clean_card = Returned card_listing \<and>
   import_conf mark5 = 5 \<and>
   map f_index (select_files ''new'' (import_conf mark5) card_listing) = [6, 7, 9] \<and>
   is_returned (get_file clean_card 0) \<and> is_returned (get_file clean_card 1) \<and>
   is_returned (get_file clean_card 2) \<and>
   import_conf (import_worker clean_card ''new'' True mark5) = 9 \<and>
   Max (f_index ` set (select_files ''new'' (import_conf mark5) card_listing)) = 9"
proof -
  have lf: "list_files clean_card = Returned card_listing" by (simp add: clean_card_def)
  have m5: "import_conf mark5 = 5" by (simp add: import_eval)
  have sel: "map f_index (select_files ''new'' (import_conf mark5) card_listing) = [6, 7, 9]"
    by (simp add: import_eval)
  have len: "length (select_files ''new'' (import_conf mark5) card_listing) = 3"
    by (simp add: import_eval)
  have r: "\<And>j. is_returned (get_file clean_card j)"
    by (simp add: clean_card_def is_returned_def)
  have ev: "import_conf (import_worker clean_card ''new'' True mark5) = 9"
    by (simp add: import_eval clean_card_def)
  then have ch: "import_conf (import_worker clean_card ''new'' True mark5) \<noteq> import_conf mark5"
    using m5 by simp
  have all: "\<forall>j < length (select_files ''new'' (import_conf mark5) card_listing).
                is_returned (get_file clean_card j)" using r by simp
  from C5_selection_and_mark [where files = card_listing and mode = "''new''" and env = clean_card
      and session = True and s = mark5] lf ch all
  have "import_conf (import_worker clean_card ''new'' True mark5)
           = Max (f_index ` set (select_files ''new'' (import_conf mark5) card_listing))"
    by blast
  with ev have "Max (f_index ` set (select_files ''new'' (import_conf mark5) card_listing)) = 9"
    by simp
  with lf m5 sel r ev show ?thesis by simp
qed

text \<open>
  The claim as stated takes the greatest processed index. When the transfer of the file
  with index 9 fails, the run still processes all three selected files and completes
  without cancellation, and the mark advances to 7, not 9.
\<close>

theorem C5_failed_top_file_counterexample:
  "list_files top_fails = Returned card_listing \<and>
   import_conf mark5 = 5 \<and>
   im_done (import_st (import_worker top_fails ''new'' True mark5)) = 3 \<and>
   im_last_error (import_st (import_worker top_fails ''new'' True mark5))
     = Some ''*** Error: Device Busy ***'' \<and>
   import_conf (import_worker top_fails ''new'' True mark5) = 7 \<and>
   Max (f_index ` set (select_files ''new'' (import_conf mark5) card_listing)) = 9"
  by (simp add: import_eval clean_card_def top_fails_def)

lemma import_loop_step_counts:
  assumes "\<not> cancel_set env k" "im_running (import_st s)" "\<not> is_raised (get_file env k)"
  shows "\<exists>mx' s'. import_loop env k (item # rest) mx s = import_loop env (k + 1) rest mx' s' \<and>
           im_running (import_st s') \<and> im_done (import_st s') = im_done (import_st s) + 1 \<and>
           im_errors (import_st s') = im_errors (import_st s)
              + (if is_proc_error (get_file env k) then 1 else 0) \<and>
           im_imported (import_st s') + im_skipped (import_st s')
              = im_imported (import_st s) + im_skipped (import_st s)
                + (if is_returned (get_file env k) then 1 else 0)"
proof (cases "get_file env k")
  case (Raised msg)
  with assms show ?thesis by (simp add: is_raised_def)
next
  case (ProcError e)
  define s2 where "s2 = emit [Spawn, Reap]
        (upd_import (\<lambda>st. st\<lparr>im_current := Some (f_name item)\<rparr>) s)"
  define s3 where "s3 = upd_import (\<lambda>st. st\<lparr>im_done := im_done st + 1\<rparr>)
                     (upd_import (\<lambda>st. st\<lparr>im_errors := im_errors st + 1,
                                            im_last_error := Some e\<rparr>) s2)"
  have "import_loop env k (item # rest) mx s = import_loop env (k + 1) rest mx s3"
    using assms ProcError by (simp add: s3_def s2_def Let_def)
  moreover have "im_running (import_st s3)" "im_done (import_st s3) = im_done (import_st s) + 1"
    "im_errors (import_st s3) = im_errors (import_st s) + 1"
    "im_imported (import_st s3) + im_skipped (import_st s3)
       = im_imported (import_st s) + im_skipped (import_st s)"
    using assms by (simp_all add: s3_def s2_def upd_import_def emit_def)
  ultimately show ?thesis using ProcError
    by (intro exI [of _ mx] exI [of _ s3]) (simp add: is_returned_def is_proc_error_def)
next
  case (Returned out)
  define s2 where "s2 = emit [Spawn, Reap]
        (upd_import (\<lambda>st. st\<lparr>im_current := Some (f_name item)\<rparr>) s)"
  define s3 where "s3 = upd_import (\<lambda>st. st\<lparr>im_done := im_done st + 1\<rparr>)
         (if dest_exists env k \<and> \<not> (contains ''File exists'' out \<or> contains ''already exists'' out)
          then upd_import (\<lambda>st. st\<lparr>im_imported := im_imported st + 1\<rparr>) s2
          else upd_import (\<lambda>st. st\<lparr>im_skipped := im_skipped st + 1\<rparr>) s2)"
  define mx' where "mx' = (if f_index item > mx then f_index item else mx)"
  have "import_loop env k (item # rest) mx s = import_loop env (k + 1) rest mx' s3"
    using assms Returned by (simp add: s3_def s2_def mx'_def Let_def)
  moreover have "im_running (import_st s3)" "im_done (import_st s3) = im_done (import_st s) + 1"
    "im_errors (import_st s3) = im_errors (import_st s)"
    "im_imported (import_st s3) + im_skipped (import_st s3)
       = im_imported (import_st s) + im_skipped (import_st s) + 1"
    using assms by (simp_all add: s3_def s2_def upd_import_def emit_def)
  ultimately show ?thesis using Returned
    by (intro exI [of _ mx'] exI [of _ s3]) (simp add: is_returned_def is_proc_error_def)
qed

lemma import_loop_all:
  "im_running (import_st s) \<Longrightarrow>
   (\<And>j. j < length sel \<Longrightarrow> \<not> cancel_set env (k + j) \<and> \<not> is_raised (get_file env (k + j))) \<Longrightarrow>
   \<exists>m s'. import_loop env k sel mx s = (Completed, m, s') \<and>
          im_done (import_st s') = im_done (import_st s) + length sel \<and>
          im_errors (import_st s') = im_errors (import_st s) + failed env k sel \<and>
          im_imported (import_st s') + im_skipped (import_st s')
            = im_imported (import_st s) + im_skipped (import_st s)
              + length (transferred env k sel)"
proof (induction sel arbitrary: k mx s)
  case Nil
  then show ?case by simp
next
  case (Cons item rest)
  from Cons.prems(2) [of 0] have now: "\<not> cancel_set env k" "\<not> is_raised (get_file env k)"
    by simp_all
  obtain mx' s' where step: "import_loop env k (item # rest) mx s
           = import_loop env (k + 1) rest mx' s'"
    and s': "im_running (import_st s')" "im_done (import_st s') = im_done (import_st s) + 1"
      "im_errors (import_st s') = im_errors (import_st s)
              + (if is_proc_error (get_file env k) then 1 else 0)"
      "im_imported (import_st s') + im_skipped (import_st s')
              = im_imported (import_st s) + im_skipped (import_st s)
                + (if is_returned (get_file env k) then 1 else 0)"
    using import_loop_step_counts [OF now(1) Cons.prems(1) now(2), of item rest mx] by blast
  have later: "\<And>j. j < length rest \<Longrightarrow>
      \<not> cancel_set env (k + 1 + j) \<and> \<not> is_raised (get_file env (k + 1 + j))"
  proof -
    fix j assume "j < length rest"
    then have "Suc j < length (item # rest)" by simp
    from Cons.prems(2) [OF this] show
      "\<not> cancel_set env (k + 1 + j) \<and> \<not> is_raised (get_file env (k + 1 + j))" by simp
  qed
  obtain m s'' where fin: "import_loop env (k + 1) rest mx' s' = (Completed, m, s'')"
    "im_done (import_st s'') = im_done (import_st s') + length rest"
    "im_errors (import_st s'') = im_errors (import_st s') + failed env (k + 1) rest"
    "im_imported (import_st s'') + im_skipped (import_st s'')
            = im_imported (import_st s') + im_skipped (import_st s')
              + length (transferred env (k + 1) rest)"
    using Cons.IH [OF s'(1) later, of mx'] by blast
  show ?case
    unfolding step using fin s' by (intro exI [of _ m] exI [of _ s'']) simp
qed

lemma import_worker_all:
  assumes run: "im_running (import_st s)"
    and lf: "list_files env = Returned files"
    and sel: "select_files mode (import_conf s) files \<noteq> []"
    and mk: "makedirs env = None"
    and quiet: "\<forall>j < length (select_files mode (import_conf s) files).
                  \<not> cancel_set env j \<and> \<not> is_raised (get_file env j)"
  shows "im_done (import_st (import_worker env mode session s))
           = length (select_files mode (import_conf s) files) \<and>
         im_errors (import_st (import_worker env mode session s))
           = failed env 0 (select_files mode (import_conf s) files) \<and>
         im_imported (import_st (import_worker env mode session s))
           + im_skipped (import_st (import_worker env mode session s))
           = length (transferred env 0 (select_files mode (import_conf s) files))"
proof -
  let ?sel = "select_files mode (import_conf s) files"
  let ?s2 = "reset_counters (length ?sel) (emit [Acquire, Spawn, Reap, Release] s)"
  note body = import_body_run [OF lf sel mk, of session]
  have run2: "im_running (import_st ?s2)"
    using run by (simp add: reset_counters_frame emit_def)
  have zero: "im_done (import_st ?s2) = 0" "im_errors (import_st ?s2) = 0"
    "im_imported (import_st ?s2) = 0" "im_skipped (import_st ?s2) = 0"
    by (simp_all add: reset_counters_def upd_import_def)
  have q: "\<And>j. j < length ?sel \<Longrightarrow>
      \<not> cancel_set env (0 + j) \<and> \<not> is_raised (get_file env (0 + j))"
    using quiet by simp
  obtain m s3 where loop: "import_loop env 0 ?sel (import_conf s) ?s2 = (Completed, m, s3)"
    and d: "im_done (import_st s3) = im_done (import_st ?s2) + length ?sel"
    and e: "im_errors (import_st s3) = im_errors (import_st ?s2) + failed env 0 ?sel"
    and t: "im_imported (import_st s3) + im_skipped (import_st s3)
            = im_imported (import_st ?s2) + im_skipped (import_st ?s2)
              + length (transferred env 0 ?sel)"
    using import_loop_all [OF run2 q, where mx = "import_conf s"] by blast
  have w: "import_worker env mode session s =
      finish False (if m > import_conf s then save_import_conf env m s3 else s3)"
    using body loop by (simp add: import_worker_finish)
  have keep: "import_st (if m > import_conf s then save_import_conf env m s3 else s3) = import_st s3"
    by (simp add: save_import_conf_def)
  show ?thesis
    unfolding w using d e t zero keep
    by (simp add: finish_def upd_import_def)
qed

subsection \<open>Retry policies\<close>

lemma spawns_append: "spawns (xs @ ys) = spawns xs + spawns ys"
  by (simp add: spawns_def)

lemma spawns_Cons: "spawns (e # es) = (if e = Spawn then 1 else 0) + spawns es"
  by (simp add: spawns_def)

lemma spawns_retries: "spawns (retries n) = n"
  by (induction n) (simp_all add: retries_def locked_call_def spawns_def)

lemma sleeps_retries: "sleeps (retries n) = replicate n sync_delay"
  by (induction n) (simp_all add: retries_def locked_call_def sleeps_append)

text \<open>
  C2 (as amended). The capture primitive makes 2 attempts with a delay of 0.6 s: after a
  transient first failure it sleeps 0.6 s and runs gphoto2 exactly once more. The
  card-sync transfer makes 3 attempts with a delay of 0.8 s: when every attempt fails
  transiently it runs gphoto2 exactly 3 times, with two sleeps of 0.8 s between them. The
  import job does not retry: once it has listed the card and selected files, it runs
  gphoto2 once for the listing and exactly once for each file it processes, whatever the
  outcome, and never sleeps. A failed transfer does not end the job: when no stop
  request is seen and no transfer raises an unexpected exception, every selected file is
  processed, the error counter is the number of failed transfers, the imported and
  skipped counters together are the number of transfers that returned, and gphoto2 has
  run once for the listing and once for each selected file.
\<close>

theorem C2_retry_policies:
  "capture_attempts = 2 \<and> capture_delay = 0.6 \<and> sync_attempts = 3 \<and> sync_delay = 0.8 \<and>
   (gp 0 = ProcError e \<and> capture_transient e \<longrightarrow>
      trace (snd (capture_retry gp over 0 s))
        = trace s @ [Spawn, Reap, Sleep capture_delay, Spawn, Reap]) \<and>
   ((\<forall>j < sync_attempts. \<exists>e. fetch senv j = ProcError e \<and> sync_transient e) \<longrightarrow>
      spawns (trace (preview_transfer senv target 0 s)) = spawns (trace s) + 3 \<and>
      sleeps (trace (preview_transfer senv target 0 s))
        = sleeps (trace s) @ [sync_delay, sync_delay]) \<and>
   (list_files menv = Returned files \<and> select_files mode (import_conf s) files \<noteq> [] \<and>
    makedirs menv = None \<longrightarrow>
      spawns (trace (import_worker menv mode session s))
        = spawns (trace s) + 1 + im_done (import_st (import_worker menv mode session s)) \<and>
      sleeps (trace (import_worker menv mode session s)) = sleeps (trace s)) \<and>
   (im_running (import_st s) \<and> list_files menv = Returned files \<and>
    select_files mode (import_conf s) files \<noteq> [] \<and> makedirs menv = None \<and>
    (\<forall>j < length (select_files mode (import_conf s) files).
       \<not> cancel_set menv j \<and> \<not> is_raised (get_file menv j)) \<longrightarrow>
      im_done (import_st (import_worker menv mode session s))
        = length (select_files mode (import_conf s) files) \<and>
      im_errors (import_st (import_worker menv mode session s))
        = failed menv 0 (select_files mode (import_conf s) files) \<and>
      im_imported (import_st (import_worker menv mode session s))
        + im_skipped (import_st (import_worker menv mode session s))
        = length (transferred menv 0 (select_files mode (import_conf s) files)) \<and>
      spawns (trace (import_worker menv mode session s))
        = spawns (trace s) + 1 + length (select_files mode (import_conf s) files))"
proof -
  let ?w = "import_worker menv mode session s"
  let ?sel = "select_files mode (import_conf s) files"
  have vals: "capture_attempts = 2" "capture_delay = 0.6" "sync_attempts = 3" "sync_delay = 0.8"
    by (simp_all add: capture_attempts_def capture_delay_def sync_attempts_def sync_delay_def)
  have cap: "gp 0 = ProcError e \<and> capture_transient e \<longrightarrow>
      trace (snd (capture_retry gp over 0 s))
        = trace s @ [Spawn, Reap, Sleep capture_delay, Spawn, Reap]"
    by (simp add: capture_retry_first emit_def time_sleep_def)
  have sync: "(\<forall>j < sync_attempts. \<exists>e. fetch senv j = ProcError e \<and> sync_transient e) \<longrightarrow>
      spawns (trace (preview_transfer senv target 0 s)) = spawns (trace s) + 3 \<and>
      sleeps (trace (preview_transfer senv target 0 s))
        = sleeps (trace s) @ [sync_delay, sync_delay]"
  proof
    assume all: "\<forall>j < sync_attempts. \<exists>e. fetch senv j = ProcError e \<and> sync_transient e"
    have "trace (preview_transfer senv target 0 s)
            = trace s @ locked_call @ retries (sync_attempts - 0 - 1)"
      using all by (intro preview_transfer_all_transient) (simp_all add: sync_attempts_def)
    then have tr: "trace (preview_transfer senv target 0 s) = trace s @ locked_call @ retries 2"
      by (simp add: sync_attempts_def)
    have one: "spawns locked_call = 1" by (simp add: spawns_def locked_call_def)
    have a: "spawns (trace (preview_transfer senv target 0 s)) = spawns (trace s) + 3"
      unfolding tr by (simp add: spawns_append spawns_retries one)
    have b: "sleeps (trace (preview_transfer senv target 0 s))
          = sleeps (trace s) @ [sync_delay, sync_delay]"
      unfolding tr
      by (simp add: sleeps_append sleeps_retries locked_call_def numeral_2_eq_2)
    from a b show "spawns (trace (preview_transfer senv target 0 s)) = spawns (trace s) + 3 \<and>
      sleeps (trace (preview_transfer senv target 0 s))
        = sleeps (trace s) @ [sync_delay, sync_delay]" by simp
  qed
  have once: "list_files menv = Returned files \<and> ?sel \<noteq> [] \<and> makedirs menv = None \<longrightarrow>
      spawns (trace ?w) = spawns (trace s) + 1 + im_done (import_st ?w) \<and>
      sleeps (trace ?w) = sleeps (trace s)"
  proof
    assume h: "list_files menv = Returned files \<and> ?sel \<noteq> [] \<and> makedirs menv = None"
    then have h1: "list_files menv = Returned files" and h2: "?sel \<noteq> []"
      and h3: "makedirs menv = None" by blast+
    have tr: "trace ?w = trace s @ [Acquire, Spawn, Reap, Release] @ gets (im_done (import_st ?w))"
      by (rule import_worker_run_trace [OF h1 h2 h3])
    have "spawns (trace ?w) = spawns (trace s) + 1 + im_done (import_st ?w)"
      by (subst tr) (simp add: spawns_append spawns_gets spawns_Cons)
    then show "spawns (trace ?w) = spawns (trace s) + 1 + im_done (import_st ?w) \<and>
      sleeps (trace ?w) = sleeps (trace s)"
      by (simp add: import_worker_sleeps)
  qed
  have goes_on: "im_running (import_st s) \<and> list_files menv = Returned files \<and>
    ?sel \<noteq> [] \<and> makedirs menv = None \<and>
    (\<forall>j < length ?sel. \<not> cancel_set menv j \<and> \<not> is_raised (get_file menv j)) \<longrightarrow>
      im_done (import_st ?w) = length ?sel \<and>
      im_errors (import_st ?w) = failed menv 0 ?sel \<and>
      im_imported (import_st ?w) + im_skipped (import_st ?w) = length (transferred menv 0 ?sel) \<and>
      spawns (trace ?w) = spawns (trace s) + 1 + length ?sel"
  proof
    assume h: "im_running (import_st s) \<and> list_files menv = Returned files \<and>
      ?sel \<noteq> [] \<and> makedirs menv = None \<and>
      (\<forall>j < length ?sel. \<not> cancel_set menv j \<and> \<not> is_raised (get_file menv j))"
    then have run: "im_running (import_st s)" and h1: "list_files menv = Returned files"
      and h2: "?sel \<noteq> []" and h3: "makedirs menv = None"
      and q: "\<forall>j < length ?sel. \<not> cancel_set menv j \<and> \<not> is_raised (get_file menv j)"
      by blast+
    note all = import_worker_all [OF run h1 h2 h3 q, of session]
    from once h1 h2 h3 have "spawns (trace ?w) = spawns (trace s) + 1 + im_done (import_st ?w)"
      by blast
    with all show "im_done (import_st ?w) = length ?sel \<and>
      im_errors (import_st ?w) = failed menv 0 ?sel \<and>
      im_imported (import_st ?w) + im_skipped (import_st ?w) = length (transferred menv 0 ?sel) \<and>
      spawns (trace ?w) = spawns (trace s) + 1 + length ?sel" by simp
  qed
  from vals cap sync once goes_on show ?thesis by blast
qed

theorem C2_retry_policies_witness:
  "busy_once 0 = ProcError ''*** Error: Device Busy ***'' \<and>
   capture_transient ''*** Error: Device Busy ***'' \<and>
   sync_transient ''*** Error: Device Busy ***'' \<and>
   trace (snd (capture_retry busy_once 0 0 init_state))
     = [Spawn, Reap, Sleep capture_delay, Spawn, Reap] \<and>
   spawns (trace (preview_transfer always_busy (img 9) 0 init_state)) = 3 \<and>
   sleeps (trace (preview_transfer always_busy (img 9) 0 init_state)) = [sync_delay, sync_delay] \<and>
   im_running (import_st mark5) \<and>
   list_files first_fails = Returned card_listing \<and>
   length (select_files ''new'' (import_conf mark5) card_listing) = 3 \<and>
   makedirs first_fails = None \<and>
   get_file first_fails 0 = ProcError ''*** Error: Device Busy ***'' \<and>
   is_returned (get_file first_fails 1) \<and> is_returned (get_file first_fails 2) \<and>
   \<not> cancel_set first_fails 0 \<and> \<not> cancel_set first_fails 1 \<and> \<not> cancel_set first_fails 2 \<and>
   im_done (import_st (import_worker first_fails ''new'' True mark5)) = 3 \<and>
   im_errors (import_st (import_worker first_fails ''new'' True mark5)) = 1 \<and>
   im_imported (import_st (import_worker first_fails ''new'' True mark5))
     + im_skipped (import_st (import_worker first_fails ''new'' True mark5)) = 2 \<and>
   spawns (trace (import_worker first_fails ''new'' True mark5)) = 4 \<and>
   sleeps (trace (import_worker first_fails ''new'' True mark5)) = []"
proof -
  let ?sel = "select_files ''new'' (import_conf mark5) card_listing"
  have ct: "capture_transient ''*** Error: Device Busy ***''" by code_simp
  have st: "sync_transient ''*** Error: Device Busy ***''" by code_simp
  have b0: "busy_once 0 = ProcError ''*** Error: Device Busy ***''" by (simp add: busy_once_def)
  have ab: "\<forall>j < sync_attempts. \<exists>e. fetch always_busy j = ProcError e \<and> sync_transient e"
    using st by (simp add: always_busy_def)
  have run: "im_running (import_st mark5)" by (simp add: import_eval)
  have lf: "list_files first_fails = Returned card_listing"
    and mk: "makedirs first_fails = None"
    by (simp_all add: first_fails_def clean_card_def)
  have len: "length ?sel = 3" by (simp add: import_eval)
  then have ne: "?sel \<noteq> []" by auto
  have g: "get_file first_fails 0 = ProcError ''*** Error: Device Busy ***''"
    "is_returned (get_file first_fails 1)" "is_returned (get_file first_fails 2)"
    by (simp_all add: first_fails_def clean_card_def is_returned_def)
  have nc: "\<And>j. \<not> cancel_set first_fails j" "\<And>j. \<not> is_raised (get_file first_fails j)"
    by (simp_all add: first_fails_def clean_card_def is_raised_def)
  then have q: "\<forall>j < length ?sel. \<not> cancel_set first_fails j \<and> \<not> is_raised (get_file first_fails j)"
    by simp
  have f: "failed first_fails 0 ?sel = 1"
    by (simp add: import_eval first_fails_def clean_card_def is_proc_error_def)
  have t: "length (transferred first_fails 0 ?sel) = 2"
    by (simp add: import_eval first_fails_def clean_card_def is_returned_def)
  have z: "trace init_state = []" "trace mark5 = []"
    by (simp_all add: import_eval)
  note T = C2_retry_policies [where gp = busy_once and e = "''*** Error: Device Busy ***''"
      and over = 0 and s = init_state and senv = always_busy and target = "img 9"]
  note U = C2_retry_policies [where s = mark5 and menv = first_fails and files = card_listing
      and mode = "''new''" and session = True]
  from T b0 ct have a: "trace (snd (capture_retry busy_once 0 0 init_state))
     = trace init_state @ [Spawn, Reap, Sleep capture_delay, Spawn, Reap]" by blast
  from T ab have b: "spawns (trace (preview_transfer always_busy (img 9) 0 init_state))
      = spawns (trace init_state) + 3"
    "sleeps (trace (preview_transfer always_busy (img 9) 0 init_state))
        = sleeps (trace init_state) @ [sync_delay, sync_delay]" by blast+
  from U run lf ne mk q
  have c: "im_done (import_st (import_worker first_fails ''new'' True mark5)) = length ?sel"
    "im_errors (import_st (import_worker first_fails ''new'' True mark5))
       = failed first_fails 0 ?sel"
    "im_imported (import_st (import_worker first_fails ''new'' True mark5))
       + im_skipped (import_st (import_worker first_fails ''new'' True mark5))
       = length (transferred first_fails 0 ?sel)"
    "spawns (trace (import_worker first_fails ''new'' True mark5))
       = spawns (trace mark5) + 1 + length ?sel" by blast+
  from U lf ne mk
  have d: "sleeps (trace (import_worker first_fails ''new'' True mark5)) = sleeps (trace mark5)"
    by blast
  have e1: "im_done (import_st (import_worker first_fails ''new'' True mark5)) = 3"
    using c(1) len by simp
  have e2: "im_errors (import_st (import_worker first_fails ''new'' True mark5)) = 1"
    using c(2) f by simp
  have e3: "im_imported (import_st (import_worker first_fails ''new'' True mark5))
     + im_skipped (import_st (import_worker first_fails ''new'' True mark5)) = 2"
    using c(3) t by simp
  have e4: "spawns (trace (import_worker first_fails ''new'' True mark5)) = 4"
    using c(4) len z by (simp add: spawns_def)
  have e5: "sleeps (trace (import_worker first_fails ''new'' True mark5)) = []"
    using d z by simp
  have a': "trace (snd (capture_retry busy_once 0 0 init_state))
     = [Spawn, Reap, Sleep capture_delay, Spawn, Reap]" using a z by simp
  have b': "spawns (trace (preview_transfer always_busy (img 9) 0 init_state)) = 3"
    "sleeps (trace (preview_transfer always_busy (img 9) 0 init_state)) = [sync_delay, sync_delay]"
    using b z by (simp_all add: spawns_def)
  from b0 ct st a' b' run lf len mk g nc(1) e1 e2 e3 e4 e5 show ?thesis by blast
qed

text \<open>
  The claim as stated gives the per-file transfer of the import job 3 attempts 0.8 s
  apart. A job of three files whose first transfer fails with a busy device (an error
  both retry loops class as transient) runs gphoto2 4 times in all (the listing and one
  run per file), never sleeps, counts one error, goes on to the other two files and
  moves the mark to 9.
\<close>

theorem C2_import_single_attempt_counterexample:
  "get_file first_fails 0 = ProcError ''*** Error: Device Busy ***'' \<and>
   capture_transient ''*** Error: Device Busy ***'' \<and>
   sync_transient ''*** Error: Device Busy ***'' \<and>
   im_done (import_st (import_worker first_fails ''new'' True mark5)) = 3 \<and>
   im_errors (import_st (import_worker first_fails ''new'' True mark5)) = 1 \<and>
   spawns (trace (import_worker first_fails ''new'' True mark5)) = 4 \<and>
   sleeps (trace (import_worker first_fails ''new'' True mark5)) = [] \<and>
   import_conf (import_worker first_fails ''new'' True mark5) = 9"
proof -
  have ct: "capture_transient ''*** Error: Device Busy ***''" by code_simp
  have st: "sync_transient ''*** Error: Device Busy ***''" by code_simp
  have "get_file first_fails 0 = ProcError ''*** Error: Device Busy ***'' \<and>
   im_done (import_st (import_worker first_fails ''new'' True mark5)) = 3 \<and>
   im_errors (import_st (import_worker first_fails ''new'' True mark5)) = 1 \<and>
   spawns (trace (import_worker first_fails ''new'' True mark5)) = 4 \<and>
   sleeps (trace (import_worker first_fails ''new'' True mark5)) = [] \<and>
   import_conf (import_worker first_fails ''new'' True mark5) = 9"
    by (simp add: import_eval clean_card_def first_fails_def spawns_def)
  with ct st show ?thesis by simp
qed

subsection \<open>Searching a buffer\<close>

lemma occ_bound: "sub \<noteq> [] \<Longrightarrow> occ sub buf p \<Longrightarrow> p + length sub \<le> length buf"
proof -
  assume ne: "sub \<noteq> []" and o: "occ sub buf p"
  then have "length (take (length sub) (drop p buf)) = length sub" by (simp add: occ_def)
  then have "min (length sub) (length buf - p) = length sub" by simp
  with ne show ?thesis by (cases "length buf \<le> p") auto
qed

lemma occ_drop: "occ sub (drop k buf) p \<longleftrightarrow> occ sub buf (k + p)"
  by (simp add: occ_def add.commute)

lemma occ_append: "p + length sub \<le> length b \<Longrightarrow> occ sub (b @ r) p \<longleftrightarrow> occ sub b p"
  by (simp add: occ_def)

lemma occ_Cons_Suc: "occ sub (x # xs) (Suc p) \<longleftrightarrow> occ sub xs p"
  by (simp add: occ_def)

lemma find_from_Some:
  "sub \<noteq> [] \<Longrightarrow>
   find_from sub xs i = Some j \<longleftrightarrow>
     i \<le> j \<and> occ sub xs (j - i) \<and> (\<forall>p < j - i. \<not> occ sub xs p)"
proof (induction xs arbitrary: i)
  case Nil
  then show ?case by (auto simp: occ_def)
next
  case (Cons x xs)
  show ?case
  proof (cases "occ sub (x # xs) 0")
    case True
    then have "find_from sub (x # xs) i = Some i" by (simp add: occ_def)
    moreover have "i \<le> j \<and> occ sub (x # xs) (j - i) \<and> (\<forall>p < j - i. \<not> occ sub (x # xs) p)
        \<longleftrightarrow> j = i"
      using True by (cases "j - i") auto
    ultimately show ?thesis by auto
  next
    case False
    then have step: "find_from sub (x # xs) i = find_from sub xs (Suc i)" by (simp add: occ_def)
    have "(i \<le> j \<and> occ sub (x # xs) (j - i) \<and> (\<forall>p < j - i. \<not> occ sub (x # xs) p))
        \<longleftrightarrow> (Suc i \<le> j \<and> occ sub xs (j - Suc i) \<and> (\<forall>p < j - Suc i. \<not> occ sub xs p))"
      (is "?l \<longleftrightarrow> ?r")
    proof
      assume l: ?l
      with False have ne: "j - i \<noteq> 0" by (cases "j - i") auto
      then obtain d where d: "j - i = Suc d" by (cases "j - i") auto
      then have "j - Suc i = d" by simp
      moreover from l d have "occ sub xs d" by (simp add: occ_Cons_Suc)
      moreover have "\<forall>p < d. \<not> occ sub xs p"
      proof (intro allI impI)
        fix p assume "p < d"
        then have "Suc p < j - i" using d by simp
        with l have "\<not> occ sub (x # xs) (Suc p)" by blast
        then show "\<not> occ sub xs p" by (simp add: occ_Cons_Suc)
      qed
      ultimately show ?r using d by auto
    next
      assume r: ?r
      then have d: "j - i = Suc (j - Suc i)" by auto
      have "\<forall>p < j - i. \<not> occ sub (x # xs) p"
      proof (intro allI impI)
        fix p assume p: "p < j - i"
        show "\<not> occ sub (x # xs) p"
        proof (cases p)
          case 0 with False show ?thesis by simp
        next
          case (Suc q)
          with p d have "q < j - Suc i" by simp
          with r Suc show ?thesis by (simp add: occ_Cons_Suc)
        qed
      qed
      moreover from r d have "occ sub (x # xs) (j - i)" by (simp add: occ_Cons_Suc)
      ultimately show ?l using r by auto
    qed
    with Cons.IH [OF Cons.prems, of "Suc i"] step show ?thesis by simp
  qed
qed

lemma find_from_None:
  "sub \<noteq> [] \<Longrightarrow> find_from sub xs i = None \<longleftrightarrow> (\<forall>p. \<not> occ sub xs p)"
proof (induction xs arbitrary: i)
  case Nil
  then show ?case by (auto simp: occ_def)
next
  case (Cons x xs)
  have "(\<forall>p. \<not> occ sub (x # xs) p) \<longleftrightarrow> \<not> occ sub (x # xs) 0 \<and> (\<forall>p. \<not> occ sub xs p)"
  proof -
    have "(\<forall>p. \<not> occ sub (x # xs) p)
        \<longleftrightarrow> \<not> occ sub (x # xs) 0 \<and> (\<forall>p. \<not> occ sub (x # xs) (Suc p))"
      by (metis nat.exhaust)
    then show ?thesis by (simp add: occ_Cons_Suc)
  qed
  with Cons.IH [OF Cons.prems, of "Suc i"] show ?case by (auto simp: occ_def)
qed

lemma bytes_find_Some:
  assumes ne: "sub \<noteq> []"
  shows "bytes_find buf sub st = Some j \<longleftrightarrow>
           st \<le> j \<and> occ sub buf j \<and> (\<forall>p. st \<le> p \<and> p < j \<longrightarrow> \<not> occ sub buf p)"
proof (cases "st \<le> length buf")
  case False
  have "\<not> (st \<le> j \<and> occ sub buf j)"
    using occ_bound [OF ne, of buf j] False by auto
  with False show ?thesis by (auto simp: bytes_find_def)
next
  case True
  have "(\<forall>p < j - st. \<not> occ sub (drop st buf) p) \<longleftrightarrow> (\<forall>p. st \<le> p \<and> p < j \<longrightarrow> \<not> occ sub buf p)"
  proof
    assume a: "\<forall>p < j - st. \<not> occ sub (drop st buf) p"
    show "\<forall>p. st \<le> p \<and> p < j \<longrightarrow> \<not> occ sub buf p"
    proof (intro allI impI)
      fix p assume "st \<le> p \<and> p < j"
      then have "p - st < j - st" "st + (p - st) = p" by auto
      with a show "\<not> occ sub buf p" by (metis occ_drop)
    qed
  next
    assume a: "\<forall>p. st \<le> p \<and> p < j \<longrightarrow> \<not> occ sub buf p"
    show "\<forall>p < j - st. \<not> occ sub (drop st buf) p"
    proof (intro allI impI)
      fix p assume "p < j - st"
      then have "st \<le> st + p \<and> st + p < j" by auto
      with a show "\<not> occ sub (drop st buf) p" by (simp add: occ_drop)
    qed
  qed
  moreover have "st \<le> j \<Longrightarrow> occ sub (drop st buf) (j - st) \<longleftrightarrow> occ sub buf j"
    by (simp add: occ_drop)
  ultimately show ?thesis
    using True by (auto simp: bytes_find_def find_from_Some [OF ne])
qed

lemma bytes_find_None:
  assumes ne: "sub \<noteq> []"
  shows "bytes_find buf sub st = None \<longleftrightarrow> (\<forall>p. st \<le> p \<longrightarrow> \<not> occ sub buf p)"
proof (cases "st \<le> length buf")
  case False
  have "\<And>p. st \<le> p \<Longrightarrow> \<not> occ sub buf p"
    using occ_bound [OF ne, of buf] False by fastforce
  with False show ?thesis by (auto simp: bytes_find_def)
next
  case True
  have "(\<forall>p. \<not> occ sub (drop st buf) p) \<longleftrightarrow> (\<forall>p. st \<le> p \<longrightarrow> \<not> occ sub buf p)"
  proof
    assume a: "\<forall>p. \<not> occ sub (drop st buf) p"
    show "\<forall>p. st \<le> p \<longrightarrow> \<not> occ sub buf p"
    proof (intro allI impI)
      fix p assume "st \<le> p"
      then have "st + (p - st) = p" by simp
      with a show "\<not> occ sub buf p" by (metis occ_drop)
    qed
  next
    assume "\<forall>p. st \<le> p \<longrightarrow> \<not> occ sub buf p"
    then show "\<forall>p. \<not> occ sub (drop st buf) p" by (simp add: occ_drop)
  qed
  with True show ?thesis by (simp add: bytes_find_def find_from_None [OF ne])
qed

subsection \<open>The frame scan\<close>

lemma marker_ne [simp]: "SOI \<noteq> []" "EOI \<noteq> []" "length SOI = 2" "length EOI = 2"
  by (simp_all add: SOI_def EOI_def)

lemma bytes_find_append:
  assumes ne: "sub \<noteq> []" and f: "bytes_find b sub st = Some j"
  shows "bytes_find (b @ r) sub st = Some j"
proof -
  from f have st: "st \<le> j" and o: "occ sub b j"
    and no: "\<And>p. st \<le> p \<Longrightarrow> p < j \<Longrightarrow> \<not> occ sub b p"
    by (simp_all add: bytes_find_Some [OF ne])
  from occ_bound [OF ne o] have len: "j + length sub \<le> length b" .
  have "occ sub (b @ r) j" using o len by (simp add: occ_append)
  moreover have "\<forall>p. st \<le> p \<and> p < j \<longrightarrow> \<not> occ sub (b @ r) p"
  proof (intro allI impI)
    fix p assume p: "st \<le> p \<and> p < j"
    with len have "p + length sub \<le> length b" by simp
    with no p show "\<not> occ sub (b @ r) p" by (simp add: occ_append)
  qed
  ultimately show ?thesis using st by (simp add: bytes_find_Some [OF ne])
qed

lemma bytes_find_drop:
  assumes ne: "sub \<noteq> []" and k: "k \<le> st"
  shows "bytes_find (drop k x) sub (st - k) = map_option (\<lambda>j. j - k) (bytes_find x sub st)"
proof (cases "bytes_find x sub st")
  case None
  then have no: "\<And>p. st \<le> p \<Longrightarrow> \<not> occ sub x p" by (simp add: bytes_find_None [OF ne])
  have "\<forall>p. st - k \<le> p \<longrightarrow> \<not> occ sub (drop k x) p"
  proof (intro allI impI)
    fix p assume "st - k \<le> p"
    then have "st \<le> k + p" by simp
    from no [OF this] show "\<not> occ sub (drop k x) p" by (simp add: occ_drop)
  qed
  then have "bytes_find (drop k x) sub (st - k) = None" by (simp add: bytes_find_None [OF ne])
  with None show ?thesis by simp
next
  case (Some j)
  then have st: "st \<le> j" and o: "occ sub x j"
    and no: "\<And>p. st \<le> p \<Longrightarrow> p < j \<Longrightarrow> \<not> occ sub x p"
    by (simp_all add: bytes_find_Some [OF ne])
  have "occ sub (drop k x) (j - k)" using o k st by (simp add: occ_drop)
  moreover have "\<forall>p. st - k \<le> p \<and> p < j - k \<longrightarrow> \<not> occ sub (drop k x) p"
  proof (intro allI impI)
    fix p assume "st - k \<le> p \<and> p < j - k"
    then have "st \<le> k + p" "k + p < j" by auto
    from no [OF this] show "\<not> occ sub (drop k x) p" by (simp add: occ_drop)
  qed
  moreover have "st - k \<le> j - k" using st by simp
  ultimately have "bytes_find (drop k x) sub (st - k) = Some (j - k)"
    by (simp add: bytes_find_Some [OF ne])
  with Some show ?thesis by simp
qed

lemma scan_None:
  "bytes_find buf SOI 0 = None \<Longrightarrow> scan buf = ([], drop (length buf - 3) buf)"
  by (simp add: scan.simps [of buf])

lemma scan_open:
  "bytes_find buf SOI 0 = Some st \<Longrightarrow> bytes_find buf EOI (st + 2) = None \<Longrightarrow>
   scan buf = ([], drop st buf)"
  by (simp add: scan.simps [of buf])

lemma scan_frame:
  "bytes_find buf SOI 0 = Some st \<Longrightarrow> bytes_find buf EOI (st + 2) = Some e \<Longrightarrow>
   scan buf = (take (e + 2 - st) (drop st buf) # fst (scan (drop (e + 2) buf)),
               snd (scan (drop (e + 2) buf)))"
  by (simp add: scan.simps [of buf] Let_def split: prod.splits)

text \<open>Bytes in front of the first start marker do not matter.\<close>

lemma scan_drop_before_SOI:
  assumes f: "bytes_find x SOI 0 = Some p" and k: "k \<le> p"
  shows "scan (drop k x) = scan x"
proof -
  have s: "bytes_find (drop k x) SOI 0 = Some (p - k)"
  proof -
    from f have o: "occ SOI x p" and no: "\<And>q. q < p \<Longrightarrow> \<not> occ SOI x q"
      by (simp_all add: bytes_find_Some)
    have "occ SOI (drop k x) (p - k)" using o k by (simp add: occ_drop)
    moreover have "\<forall>q. q < p - k \<longrightarrow> \<not> occ SOI (drop k x) q"
    proof (intro allI impI)
      fix q assume "q < p - k"
      then have "k + q < p" by simp
      from no [OF this] show "\<not> occ SOI (drop k x) q" by (simp add: occ_drop)
    qed
    ultimately show ?thesis by (simp add: bytes_find_Some)
  qed
  have kk: "k \<le> p + 2" using k by simp
  have e: "bytes_find (drop k x) EOI (p - k + 2) = map_option (\<lambda>j. j - k) (bytes_find x EOI (p + 2))"
  proof -
    have "p + 2 - k = p - k + 2" using k by simp
    with bytes_find_drop [of EOI k "p + 2" x] kk show ?thesis by simp
  qed
  show ?thesis
  proof (cases "bytes_find x EOI (p + 2)")
    case None
    with e have "bytes_find (drop k x) EOI (p - k + 2) = None" by simp
    with s None f k show ?thesis by (simp add: scan_open)
  next
    case (Some j)
    then have j: "p + 2 \<le> j" by (simp add: bytes_find_Some)
    from Some e have e': "bytes_find (drop k x) EOI (p - k + 2) = Some (j - k)" by simp
    have a: "j - k + 2 - (p - k) = j + 2 - p" using j k by simp
    have b: "drop (p - k) (drop k x) = drop p x" using k by simp
    have c: "drop (j - k + 2) (drop k x) = drop (j + 2) x"
    proof -
      have "j - k + 2 + k = j + 2" using j k by simp
      then show ?thesis by simp
    qed
    have "scan (drop k x) =
        (take (j - k + 2 - (p - k)) (drop (p - k) (drop k x))
           # fst (scan (drop (j - k + 2) (drop k x))),
         snd (scan (drop (j - k + 2) (drop k x))))"
      by (rule scan_frame [OF s e'])
    also have "\<dots> = (take (j + 2 - p) (drop p x) # fst (scan (drop (j + 2) x)),
                       snd (scan (drop (j + 2) x)))"
      unfolding a b c ..
    also have "\<dots> = scan x" by (rule scan_frame [OF f Some, symmetric])
    finally show ?thesis .
  qed
qed

lemma scan_drop_no_SOI:
  assumes f: "bytes_find x SOI 0 = None" and k: "k + 3 \<le> length x"
  shows "scan (drop k x) = scan x"
proof -
  from f have no: "\<And>p. \<not> occ SOI x p" by (simp add: bytes_find_None)
  have "bytes_find (drop k x) SOI 0 = None"
    using no by (simp add: bytes_find_None occ_drop)
  moreover have "drop (length (drop k x) - 3) (drop k x) = drop (length x - 3) x"
  proof -
    have "length (drop k x) - 3 + k = length x - 3" using k by simp
    then show ?thesis by simp
  qed
  ultimately show ?thesis using f by (simp add: scan_None)
qed

lemma scan_keep_tail:
  assumes f: "bytes_find b SOI 0 = None"
  shows "scan (drop (length b - 3) b @ r) = scan (b @ r)"
proof -
  let ?k = "length b - 3"
  have d: "drop ?k b @ r = drop ?k (b @ r)" by simp
  from f have no: "\<And>p. \<not> occ SOI b p" by (simp add: bytes_find_None)
  show ?thesis
  proof (cases "bytes_find (b @ r) SOI 0")
    case None
    show ?thesis
    proof (cases "length b < 3")
      case True
      then show ?thesis by simp
    next
      case False
      then have "?k + 3 \<le> length (b @ r)" by simp
      from scan_drop_no_SOI [OF None this] show ?thesis unfolding d .
    qed
  next
    case (Some p)
    then have o: "occ SOI (b @ r) p" by (simp add: bytes_find_Some)
    have "?k \<le> p"
    proof (rule ccontr)
      assume "\<not> ?k \<le> p"
      then have "p + length SOI \<le> length b" by simp
      with o have "occ SOI b p" by (simp only: occ_append)
      with no show False by simp
    qed
    from scan_drop_before_SOI [OF Some this] show ?thesis unfolding d .
  qed
qed

lemma scan_keep_open:
  assumes f: "bytes_find b SOI 0 = Some st"
  shows "scan (drop st b @ r) = scan (b @ r)"
proof -
  from f have "occ SOI b st" by (simp add: bytes_find_Some)
  from occ_bound [OF _ this] have "st \<le> length b" by simp
  then have d: "drop st b @ r = drop st (b @ r)" by simp
  have "bytes_find (b @ r) SOI 0 = Some st" using f by (intro bytes_find_append) simp_all
  from scan_drop_before_SOI [OF this order_refl] show ?thesis unfolding d .
qed

lemma scan_append:
  "scan (b @ r) = (fst (scan b) @ fst (scan (snd (scan b) @ r)), snd (scan (snd (scan b) @ r)))"
proof (induction b rule: scan.induct)
  case (1 buf)
  show ?case
  proof (cases "bytes_find buf SOI 0")
    case None
    then show ?thesis by (simp add: scan_None scan_keep_tail)
  next
    case (Some st)
    show ?thesis
    proof (cases "bytes_find buf EOI (st + 2)")
      case None
      with Some show ?thesis by (simp add: scan_open scan_keep_open)
    next
      case e: (Some e)
      from e have o: "occ EOI buf e" and ge: "st + 2 \<le> e" by (simp_all add: bytes_find_Some)
      from occ_bound [OF _ o] have len: "e + 2 \<le> length buf" by simp
      have s': "bytes_find (buf @ r) SOI 0 = Some st"
        using Some by (intro bytes_find_append) simp_all
      have e': "bytes_find (buf @ r) EOI (st + 2) = Some e"
        using e by (intro bytes_find_append) simp_all
      have fr: "take (e + 2 - st) (drop st (buf @ r)) = take (e + 2 - st) (drop st buf)"
        using len ge by simp
      have rest: "drop (e + 2) (buf @ r) = drop (e + 2) buf @ r" using len by simp
      note ih = "1.IH" [OF Some e refl]
      have "scan (buf @ r) =
          (take (e + 2 - st) (drop st buf) # fst (scan (drop (e + 2) buf @ r)),
           snd (scan (drop (e + 2) buf @ r)))"
        unfolding scan_frame [OF s' e'] fr rest ..
      also have "\<dots> = (fst (scan buf) @ fst (scan (snd (scan buf) @ r)),
                         snd (scan (snd (scan buf) @ r)))"
        by (subst ih, subst ih) (simp add: scan_frame [OF Some e])
      finally show ?thesis .
    qed
  qed
qed

lemma scan_residue: "fst (scan (snd (scan b))) = []"
  using scan_append [of b "[]"] by (cases "scan b") auto

lemma scan_Nil: "scan [] = ([], [])"
  by (simp add: scan.simps [of "[]"] bytes_find_def SOI_def)

lemma read_loop_scan:
  "fst (scan buf) = [] \<Longrightarrow> [] \<notin> set chunks \<Longrightarrow>
   read_loop chunks buf = fst (scan (buf @ concat chunks))"
proof (induction chunks arbitrary: buf)
  case Nil
  then show ?case by simp
next
  case (Cons c cs)
  from Cons.prems have c: "c \<noteq> []" and cs: "[] \<notin> set cs" by auto
  have "read_loop (c # cs) buf = fst (scan (buf @ c)) @ read_loop cs (snd (scan (buf @ c)))"
    using c by (simp split: prod.splits)
  also have "\<dots> = fst (scan (buf @ c)) @ fst (scan (snd (scan (buf @ c)) @ concat cs))"
    using Cons.IH [OF scan_residue cs] by simp
  also have "\<dots> = fst (scan ((buf @ c) @ concat cs))"
    by (subst scan_append [of "buf @ c" "concat cs"]) simp
  finally show ?case by simp
qed

lemma demux_scan: "[] \<notin> set chunks \<Longrightarrow> demux chunks = fst (scan (concat chunks))"
  using read_loop_scan [of "[]" chunks] by (simp add: demux_def scan_Nil)

lemma occ_take: "p + length sub \<le> n \<Longrightarrow> occ sub (take n y) p \<longleftrightarrow> occ sub y p"
proof -
  assume "p + length sub \<le> n"
  then have "min (length sub) (n - p) = length sub" by simp
  then show ?thesis by (simp add: occ_def drop_take)
qed

lemma bytes_find_take:
  assumes ne: "sub \<noteq> []" and f: "bytes_find y sub i = Some j" and n: "j + length sub \<le> n"
  shows "bytes_find (take n y) sub i = Some j"
proof -
  from f have i: "i \<le> j" and o: "occ sub y j"
    and no: "\<And>p. i \<le> p \<Longrightarrow> p < j \<Longrightarrow> \<not> occ sub y p"
    by (simp_all add: bytes_find_Some [OF ne])
  have "occ sub (take n y) j" using o n by (simp add: occ_take)
  moreover have "\<forall>p. i \<le> p \<and> p < j \<longrightarrow> \<not> occ sub (take n y) p"
  proof (intro allI impI)
    fix p assume p: "i \<le> p \<and> p < j"
    with n have "p + length sub \<le> n" by simp
    with no p show "\<not> occ sub (take n y) p" by (simp add: occ_take)
  qed
  ultimately show ?thesis using i by (simp add: bytes_find_Some [OF ne])
qed

lemma first_frame_framed:
  assumes s: "bytes_find x SOI 0 = Some st" and e: "bytes_find x EOI (st + 2) = Some e"
  shows "framed (take (e + 2 - st) (drop st x))"
proof -
  from s have os: "occ SOI x st" by (simp add: bytes_find_Some)
  from e have oe: "occ EOI x e" and ge: "st + 2 \<le> e" by (simp_all add: bytes_find_Some)
  from occ_bound [OF _ oe] have len: "e + 2 \<le> length x" by simp
  let ?f = "take (e + 2 - st) (drop st x)"
  have lf: "length ?f = e + 2 - st" using len ge by simp
  have "take 2 ?f = take 2 (drop st x)" using ge by (simp add: min_def)
  also have "\<dots> = SOI" using os by (simp add: occ_def)
  finally have a: "take 2 ?f = SOI" .
  have "bytes_find (drop st x) EOI (st + 2 - st) = map_option (\<lambda>j. j - st) (bytes_find x EOI (st + 2))"
    by (rule bytes_find_drop) simp_all
  with e have d: "bytes_find (drop st x) EOI 2 = Some (e - st)" by simp
  have "bytes_find ?f EOI 2 = Some (e - st)"
    using ge by (intro bytes_find_take [OF _ d]) simp_all
  moreover have "e - st = length ?f - 2" using lf ge by simp
  ultimately show ?thesis using a by (simp add: framed_def)
qed

lemma scan_framed: "f \<in> set (fst (scan x)) \<Longrightarrow> framed f"
proof (induction x rule: scan.induct)
  case (1 buf)
  show ?case
  proof (cases "bytes_find buf SOI 0")
    case None
    with "1.prems" show ?thesis by (simp add: scan_None)
  next
    case (Some st)
    show ?thesis
    proof (cases "bytes_find buf EOI (st + 2)")
      case None
      with Some "1.prems" show ?thesis by (simp add: scan_open)
    next
      case e: (Some e)
      from "1.prems" have "f = take (e + 2 - st) (drop st buf)
          \<or> f \<in> set (fst (scan (drop (e + 2) buf)))"
        by (simp add: scan_frame [OF Some e])
      then show ?thesis
      proof
        assume "f = take (e + 2 - st) (drop st buf)"
        then show ?thesis using first_frame_framed [OF Some e] by simp
      next
        assume "f \<in> set (fst (scan (drop (e + 2) buf)))"
        then show ?thesis by (rule "1.IH" [OF Some e refl])
      qed
    qed
  qed
qed

lemma read_loop_framed: "f \<in> set (read_loop chunks buf) \<Longrightarrow> framed f"
proof (induction chunks arbitrary: buf)
  case Nil
  then show ?case by simp
next
  case (Cons c cs)
  show ?case
  proof (cases "c = []")
    case True
    with Cons.prems show ?thesis by simp
  next
    case False
    have "read_loop (c # cs) buf
        = fst (scan (buf @ c)) @ read_loop cs (snd (scan (buf @ c)))"
      using False by (simp split: prod.splits)
    with Cons.prems have "f \<in> set (fst (scan (buf @ c)))
        \<or> f \<in> set (read_loop cs (snd (scan (buf @ c))))"
      by auto
    then show ?thesis using scan_framed Cons.IH by blast
  qed
qed

lemma scan_incomplete:
  assumes "take 2 t = SOI" "bytes_find t EOI 2 = None"
  shows "scan t = ([], t)"
proof -
  from assms(1) have o: "occ SOI t 0" by (simp add: occ_def)
  then have z: "bytes_find t SOI 0 = Some 0" by (simp add: bytes_find_Some)
  have "(0::nat) + 2 = 2" by simp
  then have "bytes_find t EOI (0 + 2) = None" using assms(2) by (simp only:)
  from scan_open [OF z this] show ?thesis by simp
qed

subsection \<open>Chunk independence of the demuxer\<close>

lemmas demux_eval =
  demux_def scan.simps bytes_find_def SOI_def EOI_def frame_A_def frame_B_def

text \<open>
  Claim C6. The frames the demuxer yields depend only on the bytes read, not on how the
  reads cut them: for chunks that are all non-empty (an empty read is the closed source)
  they are the frames of one scan of the concatenated bytes, so two splittings of the same
  byte stream give the same frames. Every frame yielded starts with the marker
  \<^verbatim>\<open>FF D8\<close> and ends with the first \<^verbatim>\<open>FF D9\<close> found from its third byte on.
  The two-frame input gives the same two frames in one chunk and one byte per chunk. What
  the scan leaves in the buffer holds no complete frame, and an incomplete frame read after
  complete ones adds nothing to the frames yielded: the loop ends with the source and the
  buffer is dropped. Each part of the response is a frame in its multipart wrapping.
\<close>

theorem C6_demux_chunk_independent:
  "([] \<notin> set chunks \<longrightarrow> demux chunks = fst (scan (concat chunks))) \<and>
   ([] \<notin> set chunks \<and> [] \<notin> set chunks' \<and> concat chunks = concat chunks' \<longrightarrow>
      demux chunks = demux chunks') \<and>
   (\<forall>f \<in> set (demux chunks).
      take 2 f = SOI \<and> bytes_find f EOI 2 = Some (length f - 2)) \<and>
   demux [frame_A @ frame_B] = [frame_A, frame_B] \<and>
   demux (map (\<lambda>b. [b]) (frame_A @ frame_B)) = [frame_A, frame_B] \<and>
   fst (scan (snd (scan (concat chunks)))) = [] \<and>
   ([] \<notin> set chunks \<and> [] \<notin> set tail \<and> snd (scan (concat chunks)) = [] \<and>
    take 2 (concat tail) = SOI \<and> bytes_find (concat tail) EOI 2 = None \<longrightarrow>
      demux (chunks @ tail) = demux chunks) \<and>
   generate chunks = map part (demux chunks)"
proof -
  have one: "[] \<notin> set chunks \<longrightarrow> demux chunks = fst (scan (concat chunks))"
    by (simp add: demux_scan)
  have two: "[] \<notin> set chunks \<and> [] \<notin> set chunks' \<and> concat chunks = concat chunks' \<longrightarrow>
      demux chunks = demux chunks'"
    by (simp add: demux_scan)
  have three: "\<forall>f \<in> set (demux chunks).
      take 2 f = SOI \<and> bytes_find f EOI 2 = Some (length f - 2)"
    using read_loop_framed [of _ chunks "[]"] by (auto simp: demux_def framed_def)
  have four: "demux [frame_A @ frame_B] = [frame_A, frame_B]"
    by (simp add: demux_eval)
  have five: "demux (map (\<lambda>b. [b]) (frame_A @ frame_B)) = [frame_A, frame_B]"
    by (simp add: demux_eval)
  have six: "fst (scan (snd (scan (concat chunks)))) = []"
    by (rule scan_residue)
  have seven: "[] \<notin> set chunks \<and> [] \<notin> set tail \<and> snd (scan (concat chunks)) = [] \<and>
    take 2 (concat tail) = SOI \<and> bytes_find (concat tail) EOI 2 = None \<longrightarrow>
      demux (chunks @ tail) = demux chunks"
  proof
    assume h: "[] \<notin> set chunks \<and> [] \<notin> set tail \<and> snd (scan (concat chunks)) = [] \<and>
      take 2 (concat tail) = SOI \<and> bytes_find (concat tail) EOI 2 = None"
    then have ne: "[] \<notin> set (chunks @ tail)" by simp
    from h have inc: "scan (concat tail) = ([], concat tail)"
      by (intro scan_incomplete) simp_all
    have "demux (chunks @ tail) = fst (scan (concat chunks @ concat tail))"
      using demux_scan [OF ne] by simp
    also have "\<dots> = fst (scan (concat chunks)) @ fst (scan (snd (scan (concat chunks)) @ concat tail))"
      by (subst scan_append) simp
    also have "\<dots> = fst (scan (concat chunks))" using h inc by simp
    also have "\<dots> = demux chunks" using h by (simp add: demux_scan)
    finally show "demux (chunks @ tail) = demux chunks" .
  qed
  have eight: "generate chunks = map part (demux chunks)" by (simp add: generate_def)
  from one two three four five six seven eight show ?thesis by blast
qed

theorem C6_demux_chunk_independent_witness:
  "[] \<notin> set [frame_A, frame_B] \<and>
   [] \<notin> set (map (\<lambda>b. [b]) (frame_A @ frame_B)) \<and>
   concat [frame_A, frame_B] = concat (map (\<lambda>b. [b]) (frame_A @ frame_B)) \<and>
   demux [frame_A, frame_B] = demux (map (\<lambda>b. [b]) (frame_A @ frame_B)) \<and>
   demux (map (\<lambda>b. [b]) (frame_A @ frame_B)) = [frame_A, frame_B] \<and>
   [] \<notin> set [[0xFF, 0xD8, 0x43 :: byte]] \<and>
   snd (scan (concat [frame_A, frame_B])) = [] \<and>
   take 2 (concat [[0xFF, 0xD8, 0x43 :: byte]]) = SOI \<and>
   bytes_find (concat [[0xFF, 0xD8, 0x43 :: byte]]) EOI 2 = None \<and>
   demux ([frame_A, frame_B] @ [[0xFF, 0xD8, 0x43]]) = [frame_A, frame_B] \<and>
   frame_B \<in> set (demux [frame_A, frame_B]) \<and>
   take 2 frame_B = SOI \<and> bytes_find frame_B EOI 2 = Some (length frame_B - 2)"
proof -
  have a: "[] \<notin> set [frame_A, frame_B]" by (simp add: frame_A_def frame_B_def)
  have b: "[] \<notin> set (map (\<lambda>b. [b]) (frame_A @ frame_B))" by auto
  have c: "concat [frame_A, frame_B] = concat (map (\<lambda>b. [b]) (frame_A @ frame_B))"
    by (simp add: frame_A_def frame_B_def)
  have t: "[] \<notin> set [[0xFF, 0xD8, 0x43 :: byte]]" by simp
  have r: "snd (scan (concat [frame_A, frame_B])) = []"
    by (simp add: demux_eval)
  have i: "take 2 (concat [[0xFF, 0xD8, 0x43 :: byte]]) = SOI"
    "bytes_find (concat [[0xFF, 0xD8, 0x43 :: byte]]) EOI 2 = None"
    by (simp_all add: SOI_def EOI_def bytes_find_def)
  note T = C6_demux_chunk_independent [where chunks = "[frame_A, frame_B]"
      and chunks' = "map (\<lambda>b. [b]) (frame_A @ frame_B)" and tail = "[[0xFF, 0xD8, 0x43]]"]
  from T a b c have d: "demux [frame_A, frame_B] = demux (map (\<lambda>b. [b]) (frame_A @ frame_B))"
    by blast
  from T have e: "demux (map (\<lambda>b. [b]) (frame_A @ frame_B)) = [frame_A, frame_B]" by blast
  from T a t r i have "demux ([frame_A, frame_B] @ [[0xFF, 0xD8, 0x43]]) = demux [frame_A, frame_B]"
    by blast
  with d e have f: "demux ([frame_A, frame_B] @ [[0xFF, 0xD8, 0x43]]) = [frame_A, frame_B]"
    by simp
  from d e have g: "frame_B \<in> set (demux [frame_A, frame_B])" by simp
  from T g have h: "take 2 frame_B = SOI \<and> bytes_find frame_B EOI 2 = Some (length frame_B - 2)"
    by blast
  from a b c d e t r i f g h show ?thesis by blast
qed

subsection \<open>Mutual exclusion of the device calls\<close>























end
